theory Spec2Isabelle
  imports Complex_Main "HOL-Library.Log_Nat"
begin

section \<open>JavaScript values used by the camera view\<close>

text \<open>
  The embedding follows \<^verbatim>\<open>js/multi-cam-view.js\<close>. Strings are lists of code units
  below 256, and the case mappings act on the ASCII letters (the keys, statuses and file
  extensions that the code compares with are ASCII). Numbers are IEEE 754 doubles where
  the code computes with values read from
  the sheet or drawn from \<^verbatim>\<open>Math.random()\<close>: the results of \<^verbatim>\<open>parseInt\<close> and
  \<^verbatim>\<open>parseFloat\<close>, the delay of the glitch scheduler, the grey level of the static and
  the positions of the speckles are rounded as the code rounds them (see
  \<open>roundDouble\<close>); the clock of the noise animation and the blend of two frames are
  computed in exact reals. The objects \<^verbatim>\<open>cameras\<close>, \<^verbatim>\<open>sections\<close> and
  \<^verbatim>\<open>entry\<close>, used as dictionaries, are maps from their own keys; a read of
  \<^verbatim>\<open>cameras\<close> or \<^verbatim>\<open>sections\<close> by a name that is not an own key follows the
  prototype of the object (see \<open>protoNames\<close>, \<open>groupBySection\<close> and \<open>lookupCamera\<close>).
\<close>

definition lowerLetters :: string where
  "lowerLetters = ''abcdefghijklmnopqrstuvwxyz''"

definition upperLetters :: string where
  "upperLetters = ''ABCDEFGHIJKLMNOPQRSTUVWXYZ''"

definition upperChar :: "char \<Rightarrow> char" where
  "upperChar c = (case map_of (zip lowerLetters upperLetters) c of Some u \<Rightarrow> u | None \<Rightarrow> c)"

definition lowerChar :: "char \<Rightarrow> char" where
  "lowerChar c = (case map_of (zip upperLetters lowerLetters) c of Some l \<Rightarrow> l | None \<Rightarrow> c)"

definition toUpperCase :: "string \<Rightarrow> string" where
  "toUpperCase s = map upperChar s"

definition toLowerCase :: "string \<Rightarrow> string" where
  "toLowerCase s = map lowerChar s"

definition endsWith :: "string \<Rightarrow> string \<Rightarrow> bool" where
  "endsWith s suffix = (length suffix \<le> length s \<and> drop (length s - length suffix) s = suffix)"

text \<open>White space and line terminators of the language, among the code units below 256:
  tab, line feed, vertical tab, form feed, carriage return, space and the no-break space
  \<^verbatim>\<open>U+00A0\<close>.\<close>

definition isWhiteSpace :: "char \<Rightarrow> bool" where
  "isWhiteSpace c =
     (c \<in> set [CHR '' '', CHR 0x09, CHR 0x0A, CHR 0x0B, CHR 0x0C, CHR 0x0D, CHR 0xA0])"

definition trimStart :: "string \<Rightarrow> string" where
  "trimStart s = dropWhile isWhiteSpace s"

definition trim :: "string \<Rightarrow> string" where
  "trim s = rev (dropWhile isWhiteSpace (rev (dropWhile isWhiteSpace s)))"

text \<open>A property read \<^verbatim>\<open>obj.key\<close> gives \<open>None\<close> for \<^verbatim>\<open>undefined\<close>; \<open>orStr\<close> is
  \<^verbatim>\<open>value || fallback\<close> on strings (the empty string is falsy), \<open>toStr\<close> is the
  conversion a built-in applies to its argument.\<close>

definition orStr :: "string option \<Rightarrow> string \<Rightarrow> string" where
  "orStr v fallback = (case v of None \<Rightarrow> fallback | Some x \<Rightarrow> if x = [] then fallback else x)"

definition toStr :: "string option \<Rightarrow> string" where
  "toStr v = (case v of None \<Rightarrow> ''undefined'' | Some x \<Rightarrow> x)"

subsection \<open>Numbers: \<^verbatim>\<open>parseInt\<close>, \<^verbatim>\<open>parseFloat\<close>, truthiness\<close>

datatype jsnum = NaN | Fin real | PosInfinity | NegInfinity

text \<open>
  A finite Number is a double \<open>m * 2 ^ q\<close> with \<open>\<bar>m\<bar> < 2 ^ 53\<close> and \<open>- 1074 \<le> q\<close>;
  the two zeros are the one value \<open>Fin 0\<close>. \<open>roundHalfEven\<close> rounds a real to the
  nearest integer, a tie going to the even one; \<open>binExp x\<close> is the exponent \<open>e\<close> with
  \<open>2 ^ e \<le> x < 2 ^ (e + 1)\<close> of a positive \<open>x\<close>; \<open>ulp x\<close> is the distance between the
  doubles around \<open>x\<close> (that of the subnormal numbers below \<open>2 ^ - 1022\<close>);
  \<open>roundDouble\<close> rounds a real to the nearest double, ties to even, with no bound on the
  exponent, and \<open>toDouble\<close> is the Number value of a real: the rounded value, or an
  infinity when that reaches \<open>2 ^ 1024\<close>.
\<close>

definition roundHalfEven :: "real \<Rightarrow> int" where
  "roundHalfEven x =
     (let f = \<lfloor>x\<rfloor>
      in if x < of_int f + 1 / 2 then f
         else if of_int f + 1 / 2 < x then f + 1
         else if even f then f else f + 1)"

definition binExp :: "real \<Rightarrow> int" where
  "binExp x = (if 1 \<le> x then bitlen \<lfloor>x\<rfloor> - 1 else - bitlen (\<lceil>1 / x\<rceil> - 1))"

definition ulp :: "real \<Rightarrow> real" where
  "ulp x = 2 powi (max (binExp \<bar>x\<bar>) (- 1022) - 52)"

definition roundDouble :: "real \<Rightarrow> real" where
  "roundDouble x = (if x = 0 then 0 else ulp x * of_int (roundHalfEven (x / ulp x)))"

definition toDouble :: "real \<Rightarrow> jsnum" where
  "toDouble x =
     (let y = roundDouble x
      in if 2 ^ 1024 \<le> y then PosInfinity
         else if y \<le> - (2 ^ 1024) then NegInfinity
         else Fin y)"

text \<open>The operators \<^verbatim>\<open>+\<close>, \<^verbatim>\<open>-\<close> and \<^verbatim>\<open>*\<close> on Numbers.\<close>

definition isNegative :: "jsnum \<Rightarrow> bool" where
  "isNegative n = (case n of Fin x \<Rightarrow> x < 0 | NegInfinity \<Rightarrow> True | _ \<Rightarrow> False)"

definition jsNeg :: "jsnum \<Rightarrow> jsnum" where
  "jsNeg n =
     (case n of NaN \<Rightarrow> NaN | Fin x \<Rightarrow> Fin (- x)
      | PosInfinity \<Rightarrow> NegInfinity | NegInfinity \<Rightarrow> PosInfinity)"

definition jsAdd :: "jsnum \<Rightarrow> jsnum \<Rightarrow> jsnum" where
  "jsAdd a b =
     (case a of
        Fin x \<Rightarrow> (case b of Fin y \<Rightarrow> toDouble (x + y) | _ \<Rightarrow> b)
      | _ \<Rightarrow> (case b of Fin y \<Rightarrow> a | _ \<Rightarrow> if a = b then a else NaN))"

definition jsSub :: "jsnum \<Rightarrow> jsnum \<Rightarrow> jsnum" where
  "jsSub a b = jsAdd a (jsNeg b)"

definition jsMul :: "jsnum \<Rightarrow> jsnum \<Rightarrow> jsnum" where
  "jsMul a b =
     (case a of
        Fin x \<Rightarrow>
          (case b of
             Fin y \<Rightarrow> toDouble (x * y)
           | NaN \<Rightarrow> NaN
           | _ \<Rightarrow> if x = 0 then NaN
                  else if isNegative a = isNegative b then PosInfinity else NegInfinity)
      | NaN \<Rightarrow> NaN
      | _ \<Rightarrow>
          if b = NaN \<or> b = Fin 0 then NaN
          else if isNegative a = isNegative b then PosInfinity
          else NegInfinity)"

definition digitValue :: "char \<Rightarrow> nat option" where
  "digitValue c = map_of (zip ''0123456789abcdefABCDEF''
       [0, 1, 2, 3, 4, 5, 6, 7, 8, 9, 10, 11, 12, 13, 14, 15, 10, 11, 12, 13, 14, 15]) c"

definition isRadixDigit :: "nat \<Rightarrow> char \<Rightarrow> bool" where
  "isRadixDigit R c = (case digitValue c of None \<Rightarrow> False | Some v \<Rightarrow> v < R)"

definition digitsValue :: "nat \<Rightarrow> string \<Rightarrow> nat" where
  "digitsValue R Z = foldl (\<lambda>a c. a * R + (case digitValue c of None \<Rightarrow> 0 | Some v \<Rightarrow> v)) 0 Z"

text \<open>\<^verbatim>\<open>parseInt(string)\<close> without a radix: leading white space, a sign, an optional
  \<^verbatim>\<open>0x\<close> prefix, then the longest run of digits, whose integer is rounded to a
  Number.\<close>

definition parseInt :: "string \<Rightarrow> jsnum" where
  "parseInt inputString =
     (let S = trimStart inputString;
          sign = (if take 1 S = ''-'' then - 1 else 1);
          S1 = (if take 1 S = ''+'' \<or> take 1 S = ''-'' then drop 1 S else S);
          hex = (take 2 S1 = ''0x'' \<or> take 2 S1 = ''0X'');
          R = (if hex then 16 else 10);
          S2 = (if hex then drop 2 S1 else S1);
          Z = takeWhile (isRadixDigit R) S2
      in if Z = [] then NaN else toDouble (sign * real (digitsValue R Z)))"

definition exponentPart :: "string \<Rightarrow> int" where
  "exponentPart r =
     (if take 1 r = ''e'' \<or> take 1 r = ''E'' then
        (let r1 = drop 1 r;
             esign = (if take 1 r1 = ''-'' then - 1 else 1);
             r2 = (if take 1 r1 = ''+'' \<or> take 1 r1 = ''-'' then drop 1 r1 else r1);
             ds = takeWhile (isRadixDigit 10) r2
         in if ds = [] then 0 else esign * int (digitsValue 10 ds))
      else 0)"

text \<open>\<^verbatim>\<open>parseFloat(string)\<close>: the longest prefix that is a decimal literal
  (\<^verbatim>\<open>Infinity\<close>, or digits with an optional fraction and exponent), whose value is
  rounded to a Number.\<close>

definition parseFloat :: "string \<Rightarrow> jsnum" where
  "parseFloat inputString =
     (let S = trimStart inputString;
          neg = (take 1 S = ''-'');
          U = (if take 1 S = ''+'' \<or> take 1 S = ''-'' then drop 1 S else S)
      in if take 8 U = ''Infinity'' then (if neg then NegInfinity else PosInfinity)
         else
           (let ip = takeWhile (isRadixDigit 10) U;
                r1 = drop (length ip) U;
                dot = (take 1 r1 = ''.'');
                fp = (if dot then takeWhile (isRadixDigit 10) (drop 1 r1) else []);
                r2 = (if dot then drop (1 + length fp) r1 else r1)
            in if ip = [] \<and> fp = [] then NaN
               else
                 (let ex = exponentPart r2;
                      m = (real (digitsValue 10 ip) + real (digitsValue 10 fp) / 10 ^ length fp)
                            * (if 0 \<le> ex then 10 ^ nat ex else 1 / 10 ^ nat (- ex))
                  in toDouble (if neg then - m else m))))"

definition truthy :: "jsnum \<Rightarrow> bool" where
  "truthy n = (n \<noteq> NaN \<and> n \<noteq> Fin 0)"

definition orNum :: "jsnum \<Rightarrow> jsnum \<Rightarrow> jsnum" where
  "orNum v fallback = (if truthy v then v else fallback)"


section \<open>Camera registry\<close>

record camera =
  camId :: string
  section_name :: string
  location :: string
  status :: string
  distance :: string
  hudText :: string
  imageUrl :: string
  panEnabled :: bool
  panDuration :: jsnum
  glitchMinMs :: jsnum
  glitchMaxMs :: jsnum

type_synonym entry = "string \<rightharpoonup> string"

text \<open>\<^verbatim>\<open>parseSheetData\<close>: the first row gives the keys (trimmed, lower case), every
  other row becomes an object; a missing or empty cell reads as the empty string.\<close>

definition cellOr :: "string list \<Rightarrow> nat \<Rightarrow> string" where
  "cellOr row index = orStr (if index < length row then Some (row ! index) else None) ''''"

definition rowObject :: "string list \<Rightarrow> string list \<Rightarrow> entry" where
  "rowObject headers row =
     fold (\<lambda>(header, index) obj. obj(header \<mapsto> cellOr row index))
       (zip headers [0..<length headers]) Map.empty"

definition parseSheetData :: "string list list \<Rightarrow> entry list" where
  "parseSheetData rows =
     (case rows of [] \<Rightarrow> []
      | r0 # dataRows \<Rightarrow>
          (let headers = map (\<lambda>h. toLowerCase (trim h)) r0
           in map (rowObject headers) dataRows))"

text \<open>The object literal that \<^verbatim>\<open>loadCameras\<close> stores for an entry whose
  \<^verbatim>\<open>camid\<close> is not empty.\<close>

definition mkCamera :: "string \<Rightarrow> entry \<Rightarrow> camera" where
  "mkCamera cid entry =
     \<lparr> camId = cid,
       section_name = orStr (entry ''section'') ''UNKNOWN'',
       location = orStr (entry ''location'') ''Unknown Location'',
       status = toUpperCase (orStr (entry ''status'') ''OFFLINE''),
       distance = orStr (entry ''distance'') ''--'',
       hudText = orStr (entry ''hudtext'') ''CAMERA FEED'',
       imageUrl = orStr (entry ''imageurl'') '''',
       panEnabled = (entry ''panenabled'' = Some ''true'' \<or> entry ''panenabled'' = Some ''TRUE''),
       panDuration = orNum (parseFloat (toStr (entry ''panduration''))) (Fin 7),
       glitchMinMs = orNum (parseInt (toStr (entry ''glitchminms''))) (Fin 400),
       glitchMaxMs = orNum (parseInt (toStr (entry ''glitchmaxms''))) (Fin 1200) \<rparr>"

text \<open>
  The names that a plain object inherits from \<^verbatim>\<open>Object.prototype\<close>. A read by one of
  them, when it is not an own key, gives a function or (for \<^verbatim>\<open>__proto__\<close>) the
  prototype itself: a truthy value that is neither a camera nor an array.
\<close>

definition protoNames :: "string list" where
  "protoNames =
     [''constructor'', ''__defineGetter__'', ''__defineSetter__'', ''hasOwnProperty'',
      ''__lookupGetter__'', ''__lookupSetter__'', ''isPrototypeOf'', ''propertyIsEnumerable'',
      ''toString'', ''valueOf'', ''__proto__'', ''toLocaleString'']"

text \<open>
  The two module variables that \<^verbatim>\<open>loadCameras\<close> fills. The assignment
  \<^verbatim>\<open>cameras[camId] = {...}\<close> makes an own key, except for the identifier
  \<^verbatim>\<open>__proto__\<close>: that assignment runs the setter of \<^verbatim>\<open>Object.prototype\<close> and makes the
  new object the prototype of \<^verbatim>\<open>cameras\<close> (\<open>regProto\<close>), adding no key.
\<close>

record registry =
  regCameras :: "string \<rightharpoonup> camera"
  regProto :: "camera option"
  regSections :: "string \<rightharpoonup> camera list"

datatype error = TypeError

definition emptyRegistry :: registry where
  "emptyRegistry = \<lparr> regCameras = Map.empty, regProto = None, regSections = Map.empty \<rparr>"

text \<open>
  Group by section: \<^verbatim>\<open>if (!sections[name]) sections[name] = []\<close>, then
  \<^verbatim>\<open>sections[name].push(cam)\<close>. For a name of \<open>protoNames\<close> that is not an own key the
  read is truthy, no array is made, and \<^verbatim>\<open>push\<close> is \<^verbatim>\<open>undefined\<close>: the call throws a
  \<^verbatim>\<open>TypeError\<close>.
\<close>

definition groupBySection ::
  "camera \<Rightarrow> (string \<rightharpoonup> camera list) \<Rightarrow> error + (string \<rightharpoonup> camera list)" where
  "groupBySection cam secs =
     (let sectionName = section_name cam
      in case secs sectionName of
           Some l \<Rightarrow> Inr (secs(sectionName \<mapsto> l @ [cam]))
         | None \<Rightarrow>
             if sectionName \<in> set protoNames then Inl TypeError
             else Inr (secs(sectionName \<mapsto> [cam])))"

text \<open>The body of the \<^verbatim>\<open>forEach\<close> for one entry: the registry after it, and the
  exception if it threw (the camera is stored before the section is read).\<close>

definition storeCamera :: "entry \<Rightarrow> registry \<Rightarrow> registry \<times> error option" where
  "storeCamera entry reg =
     (let cid = orStr (entry ''camid'') ''''
      in if cid \<noteq> [] then
           (let cam = mkCamera cid entry;
                reg1 = (if cid = ''__proto__'' then reg\<lparr>regProto := Some cam\<rparr>
                        else reg\<lparr>regCameras := (regCameras reg)(cid \<mapsto> cam)\<rparr>)
            in case groupBySection cam (regSections reg1) of
                 Inl err \<Rightarrow> (reg1, Some err)
               | Inr secs \<Rightarrow> (reg1\<lparr>regSections := secs\<rparr>, None))
         else (reg, None))"

text \<open>\<^verbatim>\<open>camEntries.forEach\<close>: an exception ends the loop, the entries after it are not
  visited.\<close>

fun forEachEntry :: "entry list \<Rightarrow> registry \<Rightarrow> registry \<times> error option" where
  "forEachEntry [] reg = (reg, None)"
| "forEachEntry (entry # entries) reg =
     (case storeCamera entry reg of
        (reg1, Some err) \<Rightarrow> (reg1, Some err)
      | (reg1, None) \<Rightarrow> forEachEntry entries reg1)"

text \<open>The module variables after \<^verbatim>\<open>loadCameras\<close> on the rows that the fetch returned,
  and the exception that its \<^verbatim>\<open>catch\<close> reports, if any (the fetch, the rendering of the
  list and the selection of the first camera are not part of the model).\<close>

definition loadCameras :: "string list list \<Rightarrow> registry \<times> error option" where
  "loadCameras rows = forEachEntry (parseSheetData rows) emptyRegistry"

section \<open>The page: elements, timers, animation frames\<close>

text \<open>
  Media elements made by \<^verbatim>\<open>document.createElement\<close> live in a store indexed by
  address, because \<^verbatim>\<open>panNode\<close> and the child of the viewport refer to the same object.
  The style property \<^verbatim>\<open>animationDuration\<close> keeps the number of seconds it was built from.
\<close>

datatype tag = IMG | VIDEO

record element =
  tagName :: tag
  src :: string
  alt :: string
  className :: string
  animationDuration :: "jsnum option"
  animationPlayState :: string

definition createElement :: "tag \<Rightarrow> element" where
  "createElement tg = \<lparr> tagName = tg, src = '''', alt = '''', className = '''',
       animationDuration = None, animationPlayState = '''' \<rparr>"

text \<open>A child of the viewport: the lost-signal container (a canvas of the given width and
  height under the text \<^verbatim>\<open>NO SIGNAL\<close>), or the media element at an address.\<close>

datatype child = LostSignalContainer nat nat | Media nat

text \<open>The variables that the closure \<^verbatim>\<open>drawNoise\<close> captures in
  \<^verbatim>\<open>startLostSignalEffect\<close>. The buffer \<open>data\<close> is a \<^verbatim>\<open>Uint8ClampedArray\<close>:
  a list of bytes. A pending animation frame owns the environment of its callback.\<close>

record noise_env =
  canvasW :: nat
  canvasH :: nat
  smallW :: nat
  smallH :: nat
  data :: "nat list"
  last_t :: real
  t_sec :: real
  prev :: "nat list option"

text \<open>A pending \<^verbatim>\<open>setTimeout(bump, delay)\<close> of the glitch scheduler, with the
  \<^verbatim>\<open>min\<close> and \<^verbatim>\<open>max\<close> its closure captured.\<close>

record timer =
  tid :: nat
  tmin :: jsnum
  tmax :: jsnum
  delay :: jsnum

record frame =
  fid :: nat
  fenv :: noise_env

text \<open>
  The module's variables (\<open>cameras\<close> to \<open>lostSignalAnimationId\<close>), what the page
  shows, the browser's pending timers and animation frames with their next handles
  (handles are positive and never reused), and the values \<^verbatim>\<open>Math.random()\<close> is going
  to return, \<open>rand s n\<close> being the result of call number \<open>n\<close>.
\<close>

record state =
  cameras :: "string \<rightharpoonup> camera"
  activeId :: "string option"
  panPaused :: bool
  panNode :: "nat option"
  glitchTimer :: "nat option"
  lostSignalAnimationId :: "nat option"
  store :: "nat \<Rightarrow> element"
  nextNode :: nat
  view :: "child list"
  viewW :: nat
  viewH :: nat
  labelText :: string
  stateText :: string
  hudElText :: string
  ariaLabel :: string
  highlighted :: "string option"
  togglePanText :: string
  glitchShow :: bool
  timers :: "timer list"
  nextTimer :: nat
  frames :: "frame list"
  nextFrame :: nat
  rand :: "nat \<Rightarrow> real"
  randIx :: nat
  console :: "string list"

definition Math_random :: "state \<Rightarrow> real \<times> state" where
  "Math_random s = (rand s (randIx s), s\<lparr>randIx := Suc (randIx s)\<rparr>)"

section \<open>Glitch effects\<close>

definition stopGlitch :: "state \<Rightarrow> state" where
  "stopGlitch s =
     (let s1 = (case glitchTimer s of
                  None \<Rightarrow> s
                | Some n \<Rightarrow>
                    if n \<noteq> 0
                    then s\<lparr>timers := filter (\<lambda>x. tid x \<noteq> n) (timers s), glitchTimer := None\<rparr>
                    else s)
      in s1\<lparr>glitchShow := False\<rparr>)"

text \<open>The delay \<^verbatim>\<open>Math.random() * (max - min) + min\<close> for a result \<open>r\<close> of
  \<^verbatim>\<open>Math.random()\<close>: a subtraction, a multiplication and an addition of doubles, each
  rounded.\<close>

definition glitchDelay :: "jsnum \<Rightarrow> jsnum \<Rightarrow> real \<Rightarrow> jsnum" where
  "glitchDelay mn mx r = jsAdd (jsMul (Fin r) (jsSub mx mn)) mn"

definition schedule :: "jsnum \<Rightarrow> jsnum \<Rightarrow> state \<Rightarrow> state" where
  "schedule mn mx s =
     (let (r, s1) = Math_random s;
          d = glitchDelay mn mx r;
          n = nextTimer s1
      in s1\<lparr>timers := timers s1 @ [\<lparr>tid = n, tmin = mn, tmax = mx, delay = d\<rparr>],
             nextTimer := Suc n,
             glitchTimer := Some n\<rparr>)"

definition bump :: "jsnum \<Rightarrow> jsnum \<Rightarrow> state \<Rightarrow> state" where
  "bump mn mx s = schedule mn mx (s\<lparr>glitchShow := True\<rparr>)"

definition triggerGlitch :: "jsnum \<Rightarrow> jsnum \<Rightarrow> state \<Rightarrow> state" where
  "triggerGlitch mn mx s = schedule mn mx (stopGlitch s)"

section \<open>Lost signal effect\<close>

text \<open>A store into a \<^verbatim>\<open>Uint8ClampedArray\<close> clamps to 0..255 and rounds to the nearest
  integer, a tie going to the even one.\<close>

definition ToUint8Clamp :: "real \<Rightarrow> nat" where
  "ToUint8Clamp x =
     (let clamped = min (max x 0) 255; f = \<lfloor>clamped\<rfloor>
      in if clamped < of_int f + 1 / 2 then nat f
         else if clamped > of_int f + 1 / 2 then nat (f + 1)
         else if even f then nat f else nat (f + 1))"

text \<open>A write at an index beyond the end of a typed array is ignored, as \<open>list_update\<close>
  does; a negative index is ignored too.\<close>

definition put :: "nat list \<Rightarrow> int \<Rightarrow> nat \<Rightarrow> nat list" where
  "put d idx v = (if 0 \<le> idx then d[nat idx := v] else d)"

definition frameInterval :: real where
  "frameInterval = 1000 / 24"

definition blend :: real where
  "blend = 0.85"

text \<open>The grey level \<^verbatim>\<open>100 + Math.random() * 70\<close> for a result \<open>r\<close> of
  \<^verbatim>\<open>Math.random()\<close>: a multiplication and an addition of doubles, each rounded (the
  results of \<^verbatim>\<open>Math.random()\<close> lie in the unit interval, so no infinity arises).\<close>

definition staticBase :: "real \<Rightarrow> real" where
  "staticBase r = roundDouble (100 + roundDouble (r * 70))"

text \<open>Base random static: the loop over \<open>i\<close> in steps of four, one random number for
  each pixel; \<open>c\<close> counts the calls of \<^verbatim>\<open>Math.random()\<close>. The three stores of
  \<^verbatim>\<open>base\<close> into the typed array each convert it to a byte.\<close>

function baseStatic :: "(nat \<Rightarrow> real) \<Rightarrow> nat \<Rightarrow> nat \<Rightarrow> nat list \<Rightarrow> nat list \<times> nat" where
  "baseStatic rnd c i d =
     (if i < length d then
        (let base = staticBase (rnd c)
         in baseStatic rnd (Suc c) (i + 4)
              (d[i + 2 := ToUint8Clamp base, i + 1 := ToUint8Clamp base,
                 i := ToUint8Clamp base, i + 3 := 255]))
      else (d, c))"
  by pat_completeness auto
termination
  by (relation "measure (\<lambda>(rnd, c, i, d). length d - i)") auto

text \<open>The remainder \<^verbatim>\<open>a % b\<close> takes the sign of \<open>a\<close>.\<close>

definition js_rem :: "real \<Rightarrow> real \<Rightarrow> real" where
  "js_rem a b = a - b * real_of_int (if 0 \<le> a / b then \<lfloor>a / b\<rfloor> else \<lceil>a / b\<rceil>)"

definition bandY :: "real \<Rightarrow> nat \<Rightarrow> int" where
  "bandY t sh = \<lfloor>js_rem (t * 20) (real sh)\<rfloor>"

text \<open>Slow drifting luminance band: the inner loop over \<open>x\<close> and the outer loop over
  \<open>y\<close> from \<open>bandY - 3\<close> up to \<open>bandY + 3\<close>, which skips the rows outside the buffer.\<close>

function bandRow :: "nat \<Rightarrow> nat \<Rightarrow> nat \<Rightarrow> nat list \<Rightarrow> nat list" where
  "bandRow sw y x d =
     (if x < sw then
        (let idx = (y * sw + x) * 4;
             d1 = d[idx := min 255 (d ! idx + 10)];
             d2 = d1[idx + 1 := min 255 (d1 ! (idx + 1) + 10)];
             d3 = d2[idx + 2 := min 255 (d2 ! (idx + 2) + 10)]
         in bandRow sw y (x + 1) d3)
      else d)"
  by pat_completeness auto
termination
  by (relation "measure (\<lambda>(sw, y, x, d). sw - x)") auto

function bandLoop :: "nat \<Rightarrow> nat \<Rightarrow> int \<Rightarrow> int \<Rightarrow> nat list \<Rightarrow> nat list" where
  "bandLoop sw sh y yEnd d =
     (if y < yEnd then
        (if y < 0 \<or> int sh \<le> y then bandLoop sw sh (y + 1) yEnd d
         else bandLoop sw sh (y + 1) yEnd (bandRow sw (nat y) 0 d))
      else d)"
  by pat_completeness auto
termination
  by (relation "measure (\<lambda>(sw, sh, y, yEnd, d). nat (yEnd - y))") auto

definition band :: "nat \<Rightarrow> nat \<Rightarrow> real \<Rightarrow> nat list \<Rightarrow> nat list" where
  "band sw sh t d = bandLoop sw sh (bandY t sh - 3) (bandY t sh + 3) d"

text \<open>Sparse white-noise speckles: \<open>n\<close> iterations are left, each draws two random
  numbers; the products are doubles, which \<^verbatim>\<open>| 0\<close> truncates.\<close>

fun speckleLoop :: "(nat \<Rightarrow> real) \<Rightarrow> nat \<Rightarrow> nat \<Rightarrow> nat \<Rightarrow> nat \<Rightarrow> nat list \<Rightarrow> nat list \<times> nat" where
  "speckleLoop rnd c sw sh 0 d = (d, c)"
| "speckleLoop rnd c sw sh (Suc n) d =
     (let x = \<lfloor>roundDouble (rnd c * real sw)\<rfloor>;
          y = \<lfloor>roundDouble (rnd (Suc c) * real sh)\<rfloor>;
          idx = (y * int sw + x) * 4
      in speckleLoop rnd (c + 2) sw sh n
           (put (put (put d (idx + 2) 255) (idx + 1) 255) idx 255))"

definition speckleCount :: "nat \<Rightarrow> nat \<Rightarrow> nat" where
  "speckleCount sw sh = nat \<lfloor>real (sw * sh) * 0.002\<rfloor>"

text \<open>Temporal blend with the previous frame, three channels of each pixel.\<close>

definition mix :: "nat \<Rightarrow> nat \<Rightarrow> nat" where
  "mix cur old = ToUint8Clamp (real cur * (1 - blend) + real old * blend)"

function blendLoop :: "nat list \<Rightarrow> nat \<Rightarrow> nat list \<Rightarrow> nat list" where
  "blendLoop p i d =
     (if i < length d then
        (let d1 = d[i := mix (d ! i) (p ! i)];
             d2 = d1[i + 1 := mix (d1 ! (i + 1)) (p ! (i + 1))];
             d3 = d2[i + 2 := mix (d2 ! (i + 2)) (p ! (i + 2))]
         in blendLoop p (i + 4) d3)
      else d)"
  by pat_completeness auto
termination
  by (relation "measure (\<lambda>(p, i, d). length d - i)") auto

definition temporalBlend :: "nat list option \<Rightarrow> nat list \<Rightarrow> nat list" where
  "temporalBlend pv d =
     (case pv of
        None \<Rightarrow> d
      | Some p \<Rightarrow> if length p = length d then blendLoop p 0 d else d)"

text \<open>The buffer of one frame before the blend: static, band, speckles.\<close>

definition rawFrame :: "(nat \<Rightarrow> real) \<Rightarrow> nat \<Rightarrow> noise_env \<Rightarrow> real \<Rightarrow> nat list \<times> nat" where
  "rawFrame rnd c e t =
     (let (d1, c1) = baseStatic rnd c 0 (data e);
          d2 = band (smallW e) (smallH e) t d1
      in speckleLoop rnd c1 (smallW e) (smallH e) (speckleCount (smallW e) (smallH e)) d2)"

definition requestAnimationFrame :: "noise_env \<Rightarrow> state \<Rightarrow> state" where
  "requestAnimationFrame e s =
     (let n = nextFrame s
      in s\<lparr>frames := frames s @ [\<lparr>fid = n, fenv = e\<rparr>],
            nextFrame := Suc n,
            lostSignalAnimationId := Some n\<rparr>)"

text \<open>The callback \<^verbatim>\<open>drawNoise(now)\<close> on its environment; the copy of the buffer to the
  canvas shows the bytes that \<open>prev\<close> keeps.\<close>

definition drawNoise :: "noise_env \<Rightarrow> real \<Rightarrow> state \<Rightarrow> state" where
  "drawNoise e now s =
     (if now - last_t e < frameInterval then requestAnimationFrame e s
      else
        (let dt = (now - last_t e) / 1000;
             t = t_sec e + dt;
             (d3, c3) = rawFrame (rand s) (randIx s) e t;
             d4 = temporalBlend (prev e) d3;
             e1 = e\<lparr>data := d4, last_t := now, t_sec := t, prev := Some d4\<rparr>
         in requestAnimationFrame e1 (s\<lparr>randIx := c3\<rparr>)))"

definition stopLostSignalEffect :: "state \<Rightarrow> state" where
  "stopLostSignalEffect s =
     (case lostSignalAnimationId s of
        None \<Rightarrow> s
      | Some n \<Rightarrow>
          if n \<noteq> 0
          then s\<lparr>frames := filter (\<lambda>x. fid x \<noteq> n) (frames s), lostSignalAnimationId := None\<rparr>
          else s)"

definition newNoiseEnv :: "nat \<Rightarrow> nat \<Rightarrow> noise_env" where
  "newNoiseEnv w h =
     (let sw = max 64 (nat \<lfloor>real w * 0.28\<rfloor>);
          sh = max 64 (nat \<lfloor>real h * 0.28\<rfloor>)
      in \<lparr> canvasW = w, canvasH = h, smallW = sw, smallH = sh,
           data = replicate (sw * sh * 4) 0, last_t = 0, t_sec = 0, prev = None \<rparr>)"

definition startLostSignalEffect :: "nat \<Rightarrow> nat \<Rightarrow> state \<Rightarrow> state" where
  "startLostSignalEffect w h s = requestAnimationFrame (newNoiseEnv w h) (stopLostSignalEffect s)"

section \<open>Scene loading\<close>

definition placeholderNoFeed :: string where
  "placeholderNoFeed = ''https://placehold.co/1600x600/031018/1d5b72?text=NO+CAMERA+FEED''"

definition isVideo :: "camera \<Rightarrow> bool" where
  "isVideo cam =
     (imageUrl cam \<noteq> [] \<and>
      (endsWith (toLowerCase (imageUrl cam)) ''.mp4'' \<or>
       endsWith (toLowerCase (imageUrl cam)) ''.webm'' \<or>
       endsWith (toLowerCase (imageUrl cam)) ''.mov''))"

text \<open>The \<^verbatim>\<open>video\<close> or \<^verbatim>\<open>img\<close> element that \<^verbatim>\<open>loadScene\<close> builds (the playback
  attributes and the attempts to play a video are left out).\<close>

definition mediaElement :: "camera \<Rightarrow> element" where
  "mediaElement cam =
     (if isVideo cam then
        (let video = createElement VIDEO;
             video1 = (if panEnabled cam
                       then video\<lparr>className := ''pan'', animationDuration := Some (panDuration cam)\<rparr>
                       else video)
         in video1\<lparr>src := imageUrl cam\<rparr>)
      else
        (let img = (createElement IMG)
                     \<lparr>alt := location cam, src := orStr (Some (imageUrl cam)) placeholderNoFeed\<rparr>
         in if panEnabled cam
            then img\<lparr>className := ''pan'', animationDuration := Some (panDuration cam)\<rparr>
            else img))"

definition mountMedia :: "camera \<Rightarrow> state \<Rightarrow> state" where
  "mountMedia cam s =
     (let p = nextNode s
      in s\<lparr>store := (store s)(p := mediaElement cam),
            nextNode := Suc p,
            panNode := Some p,
            view := view s @ [Media p]\<rparr>)"

definition mountLostSignal :: "state \<Rightarrow> state" where
  "mountLostSignal s =
     (let w = (if viewW s \<noteq> 0 then viewW s else 800);
          h = (if viewH s \<noteq> 0 then viewH s else 600);
          s1 = s\<lparr>view := view s @ [LostSignalContainer w h], panNode := None\<rparr>
      in startLostSignalEffect w h s1)"

definition setPlayState :: "string \<Rightarrow> state \<Rightarrow> state" where
  "setPlayState v s =
     (case panNode s of
        None \<Rightarrow> s
      | Some p \<Rightarrow> s\<lparr>store := (store s)(p := (store s p)\<lparr>animationPlayState := v\<rparr>)\<rparr>)"

text \<open>\<^verbatim>\<open>loadScene\<close>, in the order of its comments: clear the previous view and mount the
  new one, update the labels and the highlight, reset the pan button, handle the effects
  of the status.\<close>

definition mountScene :: "camera \<Rightarrow> state \<Rightarrow> state" where
  "mountScene cam s =
     (let s2 = s\<lparr>view := []\<rparr>
      in if status cam = ''LOST SIGNAL'' then mountLostSignal s2 else mountMedia cam s2)"

definition updateUi :: "string \<Rightarrow> camera \<Rightarrow> state \<Rightarrow> state" where
  "updateUi ident cam s =
     s\<lparr>labelText := location cam,
       stateText := status cam,
       hudElText := hudText cam @ ''  |  CAMERA: '' @ toUpperCase (camId cam),
       highlighted := Some ident\<rparr>"

definition resetPan :: "camera \<Rightarrow> state \<Rightarrow> state" where
  "resetPan cam s =
     (let s5 = s\<lparr>panPaused := False, togglePanText := ''PAUSE PAN''\<rparr>
      in if panEnabled cam then setPlayState ''running'' s5 else s5)"

definition statusEffects :: "camera \<Rightarrow> state \<Rightarrow> state" where
  "statusEffects cam s =
     (let s7 = stopGlitch s
      in if status cam = ''FLICKER''
         then triggerGlitch (glitchMinMs cam) (glitchMaxMs cam) s7
         else if status cam = ''INTERFERENCE''
         then triggerGlitch (glitchMinMs cam) (glitchMaxMs cam) s7
         else if status cam = ''LOST SIGNAL''
         then triggerGlitch (glitchMinMs cam) (glitchMaxMs cam) s7
         else s7)"

text \<open>
  The read \<^verbatim>\<open>cameras[id]\<close>. The registry is a plain object, so a name that is not one
  of its own keys is looked up in \<^verbatim>\<open>Object.prototype\<close>: for the names of
  \<open>protoNames\<close> the read gives a function or an object, which is truthy and has none of
  the fields of a camera. (The page is considered for a registry whose prototype is
  \<^verbatim>\<open>Object.prototype\<close>, that is, one loaded without a row whose identifier is
  \<^verbatim>\<open>__proto__\<close>.)
\<close>

datatype lookup = Missing | Inherited | Cam camera

definition lookupCamera :: "state \<Rightarrow> string \<Rightarrow> lookup" where
  "lookupCamera s ident =
     (case cameras s ident of
        Some cam \<Rightarrow> Cam cam
      | None \<Rightarrow> if ident \<in> set protoNames then Inherited else Missing)"

text \<open>
  What \<^verbatim>\<open>loadScene\<close> does when \<^verbatim>\<open>cam\<close> is such an inherited member: every field
  reads \<^verbatim>\<open>undefined\<close>, so the status is not \<^verbatim>\<open>LOST SIGNAL\<close>, the address is not a
  video, an image with the placeholder is mounted and becomes the pan node, the two labels
  are set to the empty text, and \<^verbatim>\<open>cam.id.toUpperCase()\<close> throws a \<^verbatim>\<open>TypeError\<close>,
  which ends the call before the pan button and the glitch are reset. The console gets the
  report of the uncaught exception.
\<close>

definition loadInherited :: "string \<Rightarrow> state \<Rightarrow> state" where
  "loadInherited ident s =
     (let s1 = stopLostSignalEffect (s\<lparr>activeId := Some ident\<rparr>);
          s2 = s1\<lparr>view := []\<rparr>;
          img = (createElement IMG)\<lparr>alt := ''undefined'', src := placeholderNoFeed\<rparr>;
          p = nextNode s2;
          s3 = s2\<lparr>store := (store s2)(p := img),
                  nextNode := Suc p,
                  panNode := Some p,
                  view := view s2 @ [Media p]\<rparr>;
          s4 = s3\<lparr>labelText := [], stateText := []\<rparr>
      in s4\<lparr>console := console s4 @ [''TypeError'']\<rparr>)"

definition loadScene :: "string \<Rightarrow> state \<Rightarrow> state" where
  "loadScene ident s =
     (case lookupCamera s ident of
        Missing \<Rightarrow> s\<lparr>console := console s @ [''Camera '' @ ident @ '' not found'']\<rparr>
      | Inherited \<Rightarrow> loadInherited ident s
      | Cam cam \<Rightarrow>
          (let s1 = stopLostSignalEffect (s\<lparr>activeId := Some ident\<rparr>);
               s3 = mountScene cam s1;
               s4 = updateUi ident cam s3;
               s6 = resetPan cam s4;
               s8 = statusEffects cam s6
           in s8\<lparr>ariaLabel := ''Camera '' @ location cam @ ''. Status '' @ status cam @ ''.''\<rparr>))"

text \<open>The click handler of the pan toggle button.\<close>

definition togglePan :: "state \<Rightarrow> state" where
  "togglePan s =
     (let s1 = s\<lparr>panPaused := \<not> panPaused s\<rparr>;
          s2 = setPlayState (if panPaused s1 then ''paused'' else ''running'') s1
      in s2\<lparr>togglePanText := (if panPaused s2 then ''RESUME PAN'' else ''PAUSE PAN'')\<rparr>)"

section \<open>Sequences of operations\<close>

text \<open>When the browser runs a pending callback it first takes it off its list; a handle
  that is not pending runs nothing.\<close>

definition timerFires :: "nat \<Rightarrow> state \<Rightarrow> state" where
  "timerFires n s =
     (case find (\<lambda>x. tid x = n) (timers s) of
        None \<Rightarrow> s
      | Some x \<Rightarrow> bump (tmin x) (tmax x) (s\<lparr>timers := filter (\<lambda>y. tid y \<noteq> n) (timers s)\<rparr>))"

definition frameFires :: "nat \<Rightarrow> real \<Rightarrow> state \<Rightarrow> state" where
  "frameFires n now s =
     (case find (\<lambda>x. fid x = n) (frames s) of
        None \<Rightarrow> s
      | Some x \<Rightarrow> drawNoise (fenv x) now (s\<lparr>frames := filter (\<lambda>y. fid y \<noteq> n) (frames s)\<rparr>))"

datatype event =
    LoadScene string
  | TriggerGlitch jsnum jsnum
  | StopGlitch
  | StartLostSignalEffect nat nat
  | StopLostSignalEffect
  | TogglePan
  | TimerFires nat
  | FrameFires nat real

fun step :: "event \<Rightarrow> state \<Rightarrow> state" where
  "step (LoadScene ident) s = loadScene ident s"
| "step (TriggerGlitch mn mx) s = triggerGlitch mn mx s"
| "step StopGlitch s = stopGlitch s"
| "step (StartLostSignalEffect w h) s = startLostSignalEffect w h s"
| "step StopLostSignalEffect s = stopLostSignalEffect s"
| "step TogglePan s = togglePan s"
| "step (TimerFires n) s = timerFires n s"
| "step (FrameFires n now) s = frameFires n now s"

definition run :: "event list \<Rightarrow> state \<Rightarrow> state" where
  "run evs s = fold step evs s"

text \<open>The page before the first selection, for a registry, a viewport size and a sequence
  of random numbers; the texts come from the markup of the page and are left empty.\<close>

definition initial :: "(string \<rightharpoonup> camera) \<Rightarrow> nat \<Rightarrow> nat \<Rightarrow> (nat \<Rightarrow> real) \<Rightarrow> state" where
  "initial cams w h rnd =
     \<lparr> cameras = cams, activeId = None, panPaused = False, panNode = None,
       glitchTimer = None, lostSignalAnimationId = None,
       store = (\<lambda>p. createElement IMG), nextNode = 0, view = [], viewW = w, viewH = h,
       labelText = '''', stateText = '''', hudElText = '''', ariaLabel = '''',
       highlighted = None, togglePanText = '''', glitchShow = False,
       timers = [], nextTimer = 1, frames = [], nextFrame = 1,
       rand = rnd, randIx = 0, console = [] \<rparr>"

text \<open>At most one callback is pending, and it is the one whose handle the module holds:
  \<open>ids\<close> are the handles of the pending callbacks, \<open>h\<close> the variable of the module,
  \<open>next\<close> the browser's next handle.\<close>

definition handleOk :: "nat option \<Rightarrow> nat \<Rightarrow> nat list \<Rightarrow> bool" where
  "handleOk h next ids =
     (case h of
        None \<Rightarrow> ids = []
      | Some n \<Rightarrow> 0 < n \<and> n < next \<and> length ids \<le> 1 \<and> list_all (\<lambda>x. x = n) ids)"

definition pendingOk :: "state \<Rightarrow> bool" where
  "pendingOk s =
     (0 < nextTimer s \<and> 0 < nextFrame s \<and>
      handleOk (glitchTimer s) (nextTimer s) (map tid (timers s)) \<and>
      handleOk (lostSignalAnimationId s) (nextFrame s) (map fid (frames s)))"

text \<open>The statuses for which \<open>loadScene\<close> calls \<open>triggerGlitch\<close>.\<close>

definition glitchy :: "camera \<Rightarrow> bool" where
  "glitchy cam =
     (status cam = ''FLICKER'' \<or> status cam = ''INTERFERENCE'' \<or> status cam = ''LOST SIGNAL'')"

text \<open>The state of \<open>loadScene\<close> for a known camera just before the status effects.\<close>

definition shown :: "string \<Rightarrow> camera \<Rightarrow> state \<Rightarrow> state" where
  "shown ident cam s =
     resetPan cam (updateUi ident cam (mountScene cam
       (stopLostSignalEffect (s\<lparr>activeId := Some ident\<rparr>))))"

text \<open>What an observer reads: the play state of the pan node, if there is one.\<close>

definition playState :: "state \<Rightarrow> string option" where
  "playState s = map_option (\<lambda>p. animationPlayState (store s p)) (panNode s)"

text \<open>The delay of a pending timer was computed from a result of \<^verbatim>\<open>Math.random()\<close>
  and the bounds of its closure; this holds of every pending timer.\<close>

definition drawn :: "(nat \<Rightarrow> real) \<Rightarrow> timer \<Rightarrow> bool" where
  "drawn rnd x = (\<exists>k. delay x = glitchDelay (tmin x) (tmax x) (rnd k))"

definition delaysOk :: "state \<Rightarrow> bool" where
  "delaysOk s = list_all (drawn (rand s)) (timers s)"

text \<open>
  The entries that the \<^verbatim>\<open>forEach\<close> of \<^verbatim>\<open>loadCameras\<close> visits: an entry with an
  identifier and a section named like a member of \<^verbatim>\<open>Object.prototype\<close> ends the loop,
  after its camera was stored. Of the visited entries that carry a given identifier, the
  last one is the row the registry keeps.
\<close>

definition throwing :: "entry \<Rightarrow> bool" where
  "throwing e =
     (orStr (e ''camid'') '''' \<noteq> [] \<and> orStr (e ''section'') ''UNKNOWN'' \<in> set protoNames)"

definition visited :: "entry list \<Rightarrow> entry list" where
  "visited es = takeWhile (\<lambda>e. \<not> throwing e) es @ take 1 (dropWhile (\<lambda>e. \<not> throwing e) es)"

definition rowsOf :: "string list list \<Rightarrow> string \<Rightarrow> entry list" where
  "rowsOf rows cid =
     filter (\<lambda>e. orStr (e ''camid'') '''' = cid) (visited (parseSheetData rows))"

text \<open>The decimal numeral of a natural number, as a cell of the sheet holds it.\<close>

definition digitChar :: "nat \<Rightarrow> char" where
  "digitChar n = ''0123456789'' ! n"

fun decimal :: "nat \<Rightarrow> string" where
  "decimal n = (if n < 10 then [digitChar n] else decimal (n div 10) @ [digitChar (n mod 10)])"

text \<open>A text that starts, after white space, with none of the characters a number can
  start with.\<close>

definition noNumber :: "string \<Rightarrow> bool" where
  "noNumber cell =
     (trimStart cell = [] \<or> hd (trimStart cell) \<notin> set ''+-.0123456789I'')"

text \<open>The rows of the buffer that lie in the band around \<open>b\<close>, and the rows whose
  first byte the band pass changed.\<close>

definition inBand :: "int \<Rightarrow> nat \<Rightarrow> bool" where
  "inBand b y = (b - 3 \<le> int y \<and> int y < b + 3)"

definition bandRows :: "nat \<Rightarrow> int \<Rightarrow> nat list" where
  "bandRows sh b = filter (inBand b) [0..<sh]"

definition adjustedRows :: "nat \<Rightarrow> nat \<Rightarrow> real \<Rightarrow> nat list \<Rightarrow> nat list" where
  "adjustedRows sw sh t d = filter (\<lambda>y. band sw sh t d ! (y * sw * 4) \<noteq> d ! (y * sw * 4)) [0..<sh]"

text \<open>The environment of the noise callback after it ran at time \<open>now\<close>, the buffer of
  that frame before the blend, and the lists whose elements are bytes.\<close>

definition rendered :: "noise_env \<Rightarrow> real \<Rightarrow> state \<Rightarrow> noise_env" where
  "rendered e now s = fenv (last (frames (drawNoise e now s)))"

definition rawOf :: "noise_env \<Rightarrow> real \<Rightarrow> state \<Rightarrow> nat list" where
  "rawOf e now s = fst (rawFrame (rand s) (randIx s) e (t_sec e + (now - last_t e) / 1000))"

definition bytes :: "nat list \<Rightarrow> bool" where
  "bytes d = list_all (\<lambda>v. v \<le> 255) d"

section \<open>An example registry\<close>

definition demoCamera :: "string \<Rightarrow> string \<Rightarrow> string \<Rightarrow> bool \<Rightarrow> int \<Rightarrow> int \<Rightarrow> camera" where
  "demoCamera cid st url pan mn mx =
     \<lparr> camId = cid, section_name = ''SECTION A'', location = ''A-03 CORRIDOR (MAIN)'',
       status = st, distance = ''14m'', hudText = ''ZOOM: 1.0x'', imageUrl = url,
       panEnabled = pan, panDuration = Fin 7,
       glitchMinMs = Fin (of_int mn), glitchMaxMs = Fin (of_int mx) \<rparr>"

definition camCorridor :: camera where
  "camCorridor = demoCamera ''cam-corridor'' ''ONLINE'' ''corridor.jpg'' True 400 1200"

definition camLab :: camera where
  "camLab = demoCamera ''cam-lab'' ''FLICKER'' ''lab.mp4'' False 400 1200"

definition camDock :: camera where
  "camDock = demoCamera ''cam-dock'' ''LOST SIGNAL'' [] True 400 1200"

definition camVent :: camera where
  "camVent = demoCamera ''cam-vent'' ''OFFLINE'' [] False 400 1200"

definition camHub :: camera where
  "camHub = demoCamera ''cam-hub'' ''INTERFERENCE'' ''hub.png'' False 500 500"

definition demoCameras :: "string \<rightharpoonup> camera" where
  "demoCameras =
     [''cam-corridor'' \<mapsto> camCorridor, ''cam-lab'' \<mapsto> camLab, ''cam-dock'' \<mapsto> camDock,
      ''cam-vent'' \<mapsto> camVent, ''cam-hub'' \<mapsto> camHub]"

definition demoState :: state where
  "demoState = initial demoCameras 800 600 (\<lambda>n. 1 / 2)"

definition demoEvents :: "event list" where
  "demoEvents = [LoadScene ''cam-lab'', TimerFires 1, LoadScene ''cam-dock'', FrameFires 1 50]"

text \<open>A random source that always returns one half, and the buffer of an 800 by 600
  canvas after the static pass with it.\<close>

definition halfRandom :: "nat \<Rightarrow> real" where
  "halfRandom n = 1 / 2"

definition staticFrame :: "nat list" where
  "staticFrame = fst (baseStatic halfRandom 0 0 (data (newNoiseEnv 800 600)))"

text \<open>A noise environment whose previous frame is that buffer.\<close>

definition blendedEnv :: noise_env where
  "blendedEnv = (newNoiseEnv 800 600)\<lparr>prev := Some staticFrame\<rparr>"

text \<open>A random source that always returns the largest double below 1, and the page of
  the example registry with it.\<close>

definition maxRandom :: "nat \<Rightarrow> real" where
  "maxRandom n = 1 - 1 / 2 ^ 53"

definition maxState :: state where
  "maxState = initial demoCameras 800 600 maxRandom"

text \<open>A random source that always returns the double \<open>96505706300796 / 2 ^ 52\<close>, for
  which the exact value of \<open>100 + r * 70\<close> lies just below \<open>101.5\<close>.\<close>

definition tieRandom :: "nat \<Rightarrow> real" where
  "tieRandom n = 96505706300796 / 2 ^ 52"

text \<open>A sheet whose numeric cells are zero, one with ordinary values, and one whose
  second row names its section \<^verbatim>\<open>constructor\<close>.\<close>

definition zeroRows :: "string list list" where
  "zeroRows =
     [[''camId'', ''panDuration'', ''glitchMinMs'', ''glitchMaxMs''],
      [''cam-zero'', ''0'', ''0'', ''0'']]"

definition plainRows :: "string list list" where
  "plainRows =
     [[''camId'', '' Status '', ''panDuration'', ''glitchMinMs'', ''glitchMaxMs''],
      [''cam-plain'', ''flicker'', ''3.5'', ''250'', ''abc'']]"


definition abortRows :: "string list list" where
  "abortRows =
     [[''camId'', ''section'', ''glitchMinMs''],
      [''a'', ''SECTION A'', ''100''],
      [''c'', ''constructor'', ''150''],
      [''a'', ''SECTION A'', ''300''],
      [''b'', ''SECTION B'', ''250'']]"
section \<open>Rounding to doubles\<close>

lemma roundHalfEven_near: "\<bar>of_int (roundHalfEven x) - x\<bar> \<le> 1 / 2"
  unfolding roundHalfEven_def Let_def by (auto; linarith)

lemma roundHalfEven_int [simp]: "roundHalfEven (of_int n) = n"
  by (simp add: roundHalfEven_def)

lemma roundHalfEven_mono:
  assumes "x \<le> y"
  shows "roundHalfEven x \<le> roundHalfEven y"
proof -
  have fl: "\<lfloor>x\<rfloor> \<le> \<lfloor>y\<rfloor>" using assms by (rule floor_mono)
  show ?thesis
  proof (cases "\<lfloor>x\<rfloor> = \<lfloor>y\<rfloor>")
    case True
    then show ?thesis using assms by (auto simp add: roundHalfEven_def Let_def)
  next
    case False
    then have "\<lfloor>x\<rfloor> + 1 \<le> \<lfloor>y\<rfloor>" using fl by linarith
    then show ?thesis by (auto simp add: roundHalfEven_def Let_def)
  qed
qed

lemma roundHalfEven_minus: "roundHalfEven (- x) = - roundHalfEven x"
proof (cases "x \<in> \<int>")
  case True
  then obtain n where "x = of_int n" by (auto elim: Ints_cases)
  then show ?thesis by (simp add: roundHalfEven_def flip: of_int_minus)
next
  case False
  then have ne: "of_int \<lfloor>x\<rfloor> \<noteq> x" by (metis Ints_of_int)
  then have "\<lceil>x\<rceil> = \<lfloor>x\<rfloor> + 1" by (simp add: ceiling_altdef)
  then have c: "\<lfloor>- x\<rfloor> = - \<lfloor>x\<rfloor> - 1" by (simp add: ceiling_def)
  have fl: "of_int \<lfloor>x\<rfloor> < x" "x < of_int \<lfloor>x\<rfloor> + 1"
    using ne of_int_floor_le [of x] by linarith+
  show ?thesis
    unfolding roundHalfEven_def Let_def c using fl by (auto; linarith?)
qed

lemma binExp_bounds:
  assumes "0 < x"
  shows "2 powi (binExp x) \<le> x \<and> x < 2 powi (binExp x + 1)"
proof (cases "1 \<le> x")
  case True
  let ?m = "\<lfloor>x\<rfloor>"
  have m: "0 < ?m" using True by simp
  have b1: "1 \<le> bitlen ?m" using m by (simp add: bitlen_alt_def)
  note bb = bitlen_bounds [OF m]
  have lo: "2 powi (bitlen ?m - 1) \<le> x"
  proof -
    have "(2::real) powi (bitlen ?m - 1) = 2 ^ nat (bitlen ?m - 1)"
      using b1 by (simp add: power_int_def)
    also have "\<dots> = of_int (2 ^ nat (bitlen ?m - 1))" by simp
    also have "\<dots> \<le> of_int ?m" using bb by (intro of_int_le_iff [THEN iffD2]) simp
    also have "\<dots> \<le> x" by simp
    finally show ?thesis .
  qed
  have hi: "x < 2 powi (bitlen ?m)"
  proof -
    have "?m + 1 \<le> 2 ^ nat (bitlen ?m)" using bb by simp
    then have "of_int (?m + 1) \<le> (of_int (2 ^ nat (bitlen ?m)) :: real)"
      by (intro of_int_le_iff [THEN iffD2])
    then have a: "real_of_int ?m + 1 \<le> 2 ^ nat (bitlen ?m)" by simp
    have b: "x < real_of_int ?m + 1" by linarith
    have c: "(2::real) powi (bitlen ?m) = 2 ^ nat (bitlen ?m)"
      using b1 by (simp add: power_int_def)
    show ?thesis unfolding c using a b by linarith
  qed
  show ?thesis using True lo hi by (simp add: binExp_def)
next
  case False
  then have x1: "x < 1" by simp
  define y where "y = 1 / x"
  define m where "m = \<lceil>y\<rceil> - 1"
  define b where "b = bitlen m"
  have y1: "1 < y" using assms x1 by (simp add: y_def)
  have ym: "of_int m < y" "y \<le> of_int m + 1" unfolding m_def by linarith+
  have m: "0 < m" using y1 ym by linarith
  have b1: "1 \<le> b" using m by (simp add: bitlen_alt_def b_def)
  have bb: "2 ^ nat (b - 1) \<le> m" "m < 2 ^ nat b"
    using bitlen_bounds [OF m] by (simp_all add: b_def)
  have "m + 1 \<le> 2 ^ nat b" using bb by linarith
  then have "real_of_int (m + 1) \<le> real_of_int (2 ^ nat b)"
    by (rule of_int_le_iff [THEN iffD2])
  then have a1: "real_of_int m + 1 \<le> 2 ^ nat b" by simp
  have up: "y \<le> 2 ^ nat b" using a1 ym by linarith
  have "real_of_int (2 ^ nat (b - 1)) \<le> real_of_int m"
    using bb by (intro of_int_le_iff [THEN iffD2])
  then have a2: "(2::real) ^ nat (b - 1) \<le> real_of_int m" by simp
  have dn: "2 ^ nat (b - 1) < y" using a2 ym by linarith
  have xy: "x = 1 / y" using assms by (simp add: y_def)
  have ypos: "0 < y" using y1 by linarith
  have lo: "2 powi (- b) \<le> x"
  proof -
    have "(2::real) powi (- b) = 1 / 2 ^ nat b"
      using b1 by (simp add: power_int_def field_simps)
    also have "\<dots> \<le> 1 / y" using up ypos by (simp add: field_simps)
    finally show ?thesis using xy by simp
  qed
  have hi: "x < 2 powi (- b + 1)"
  proof -
    have e: "(2::real) powi (- b + 1) = 1 / 2 ^ nat (b - 1)"
    proof (cases "b = 1")
      case True
      then show ?thesis by simp
    next
      case False
      then have "- b + 1 < 0" using b1 by linarith
      then have "(2::real) powi (- b + 1) = inverse 2 ^ nat (b - 1)"
        by (simp add: power_int_def)
      then show ?thesis by (simp add: field_simps)
    qed
    have "1 / y < 1 / 2 ^ nat (b - 1)"
      using dn ypos by (intro divide_strict_left_mono) simp_all
    then show ?thesis unfolding e xy .
  qed
  have "binExp x = - b" using False by (simp add: binExp_def b_def m_def y_def)
  then show ?thesis using lo hi by simp
qed

lemma binExp_unique:
  assumes "0 < x" "2 powi e \<le> x" "x < 2 powi (e + 1)"
  shows "binExp x = e"
proof (rule ccontr)
  assume ne: "binExp x \<noteq> e"
  note b = binExp_bounds [OF assms(1)]
  show False
  proof (cases "binExp x < e")
    case True
    then have "(2::real) powi (binExp x + 1) \<le> 2 powi e"
      by (intro power_int_increasing) simp_all
    then show False using b assms(2) by linarith
  next
    case False
    then have "e + 1 \<le> binExp x" using ne by linarith
    then have "(2::real) powi (e + 1) \<le> 2 powi (binExp x)"
      by (intro power_int_increasing) simp_all
    then show False using b assms(3) by linarith
  qed
qed

lemma ulp_pos [simp]: "0 < ulp x"
  by (simp add: ulp_def)

lemma ulp_nz [simp]: "ulp x \<noteq> 0"
  using ulp_pos [of x] by linarith

lemma ulp_nonneg [simp]: "0 \<le> ulp x"
  using ulp_pos [of x] by linarith

lemma ulp_minus [simp]: "ulp (- x) = ulp x"
  by (simp add: ulp_def)

lemma roundDouble_minus: "roundDouble (- x) = - roundDouble x"
  by (simp add: roundDouble_def roundHalfEven_minus)

lemma roundHalfEven_eqI:
  assumes "\<bar>x - of_int n\<bar> < 1 / 2"
  shows "roundHalfEven x = n"
proof -
  have "\<lfloor>x\<rfloor> = n \<or> \<lfloor>x\<rfloor> = n - 1" using assms by linarith
  then show ?thesis
    using assms unfolding roundHalfEven_def Let_def by (auto; linarith)
qed

lemma roundHalfEven_tie:
  assumes "x = of_int n + 1 / 2"
  shows "roundHalfEven x = (if even n then n else n + 1)"
proof -
  have "\<lfloor>x\<rfloor> = n" using assms by linarith
  then show ?thesis
    using assms unfolding roundHalfEven_def Let_def by auto
qed

lemma roundHalfEven_nonneg: "0 \<le> x \<Longrightarrow> 0 \<le> roundHalfEven x"
  using roundHalfEven_mono [of 0 x] roundHalfEven_int [of 0] by simp

lemma roundDouble_nonneg:
  assumes "0 \<le> x"
  shows "0 \<le> roundDouble x"
proof -
  have "0 \<le> x / ulp x" using assms by simp
  then have "0 \<le> roundHalfEven (x / ulp x)" by (rule roundHalfEven_nonneg)
  then have "0 \<le> ulp x * real_of_int (roundHalfEven (x / ulp x))" by simp
  then show ?thesis by (simp add: roundDouble_def)
qed

lemma binExp_mono:
  assumes "0 < x" "x \<le> y"
  shows "binExp x \<le> binExp y"
proof (rule ccontr)
  assume "\<not> binExp x \<le> binExp y"
  then have "binExp y + 1 \<le> binExp x" by linarith
  then have "(2::real) powi (binExp y + 1) \<le> 2 powi (binExp x)"
    by (intro power_int_increasing) simp_all
  moreover have "2 powi (binExp x) \<le> x" using binExp_bounds [OF assms(1)] by simp
  moreover have "y < 2 powi (binExp y + 1)" using binExp_bounds [of y] assms by simp
  ultimately show False using assms by linarith
qed

lemma pow_split53: "(2::real) powi (e + 1) = 2 powi (e - 52) * 2 ^ 53"
proof -
  have a: "(2::real) powi (e - 52 + 53) = 2 powi (e - 52) * 2 powi 53"
    by (rule power_int_add) simp
  have b: "e - 52 + 53 = e + 1" by linarith
  show ?thesis using a unfolding b by simp
qed

lemma pow_split52: "(2::real) powi e = 2 powi (e - 52) * 2 ^ 52"
proof -
  have a: "(2::real) powi (e - 52 + 52) = 2 powi (e - 52) * 2 powi 52"
    by (rule power_int_add) simp
  have b: "e - 52 + 52 = e" by linarith
  show ?thesis using a unfolding b by simp
qed

lemma roundHalfEven_pow [simp]: "roundHalfEven (2 ^ k) = 2 ^ k"
  using roundHalfEven_int [of "2 ^ k"] by simp

lemma roundDouble_upper:
  assumes "0 < x" "e = max (binExp x) (- 1022)"
  shows "roundDouble x \<le> 2 powi (e + 1)"
proof -
  have u: "ulp x = 2 powi (e - 52)" using assms by (simp add: ulp_def)
  have "x < 2 powi (binExp x + 1)" using binExp_bounds [OF assms(1)] by simp
  also have "\<dots> \<le> 2 powi (e + 1)"
    using assms by (intro power_int_increasing) simp_all
  finally have x: "x < 2 powi (e + 1)" .
  note sp = pow_split53 [of e]
  have p: "(0::real) < 2 powi (e - 52)" by simp
  have "x / 2 powi (e - 52) \<le> 2 ^ 53"
    using x p unfolding sp by (simp only: pos_divide_le_eq mult.commute less_imp_le)
  then have "roundHalfEven (x / 2 powi (e - 52)) \<le> roundHalfEven (2 ^ 53)"
    by (rule roundHalfEven_mono)
  then have "roundHalfEven (x / 2 powi (e - 52)) \<le> 2 ^ 53"
    unfolding roundHalfEven_pow .
  then have "real_of_int (roundHalfEven (x / 2 powi (e - 52))) \<le> real_of_int (2 ^ 53)"
    by (rule of_int_le_iff [THEN iffD2])
  then have "2 powi (e - 52) * real_of_int (roundHalfEven (x / 2 powi (e - 52)))
      \<le> 2 powi (e - 52) * real_of_int (2 ^ 53)"
    by (intro mult_left_mono) simp_all
  then have "2 powi (e - 52) * real_of_int (roundHalfEven (x / 2 powi (e - 52)))
      \<le> 2 powi (e + 1)"
    unfolding sp by simp
  then show ?thesis
    using assms(1) unfolding roundDouble_def u by simp
qed

lemma roundDouble_lower:
  assumes "0 < x" "- 1022 \<le> binExp x"
  shows "2 powi (binExp x) \<le> roundDouble x"
proof -
  define e where "e = binExp x"
  have u: "ulp x = 2 powi (e - 52)" using assms by (simp add: ulp_def e_def max_def)
  have x: "2 powi e \<le> x" using binExp_bounds [OF assms(1)] by (simp add: e_def)
  note sp = pow_split52 [of e]
  have p: "(0::real) < 2 powi (e - 52)" by simp
  have "2 ^ 52 \<le> x / 2 powi (e - 52)"
    using x p unfolding sp by (simp only: pos_le_divide_eq mult.commute)
  then have "roundHalfEven (2 ^ 52) \<le> roundHalfEven (x / 2 powi (e - 52))"
    by (rule roundHalfEven_mono)
  then have "2 ^ 52 \<le> roundHalfEven (x / 2 powi (e - 52))"
    unfolding roundHalfEven_pow .
  then have "real_of_int (2 ^ 52) \<le> real_of_int (roundHalfEven (x / 2 powi (e - 52)))"
    by (rule of_int_le_iff [THEN iffD2])
  then have "2 powi (e - 52) * real_of_int (2 ^ 52)
      \<le> 2 powi (e - 52) * real_of_int (roundHalfEven (x / 2 powi (e - 52)))"
    by (intro mult_left_mono) simp_all
  then have "2 powi e \<le> 2 powi (e - 52) * real_of_int (roundHalfEven (x / 2 powi (e - 52)))"
    unfolding sp by simp
  then show ?thesis
    using assms(1) unfolding roundDouble_def u e_def [symmetric] by simp
qed

lemma roundDouble_mono_pos:
  assumes "0 < x" "x \<le> y"
  shows "roundDouble x \<le> roundDouble y"
proof -
  have y: "0 < y" using assms by linarith
  define ex where "ex = max (binExp x) (- 1022)"
  define ey where "ey = max (binExp y) (- 1022)"
  have le: "ex \<le> ey" using binExp_mono [OF assms] by (simp add: ex_def ey_def)
  show ?thesis
  proof (cases "ex = ey")
    case True
    then have u: "ulp x = ulp y" using assms y by (simp add: ulp_def ex_def ey_def)
    have "x / ulp y \<le> y / ulp y" using assms(2) by (intro divide_right_mono) simp_all
    then have "roundHalfEven (x / ulp y) \<le> roundHalfEven (y / ulp y)"
      by (rule roundHalfEven_mono)
    then have "real_of_int (roundHalfEven (x / ulp y)) \<le> real_of_int (roundHalfEven (y / ulp y))"
      by (rule of_int_le_iff [THEN iffD2])
    then have "ulp y * real_of_int (roundHalfEven (x / ulp y))
        \<le> ulp y * real_of_int (roundHalfEven (y / ulp y))"
      by (intro mult_left_mono) simp_all
    then show ?thesis using assms y by (simp add: roundDouble_def u)
  next
    case False
    then have lt: "ex + 1 \<le> ey" using le by linarith
    then have by1: "ey = binExp y" "- 1022 \<le> binExp y"
      by (simp_all add: ey_def ex_def max_def split: if_splits)
    have "roundDouble x \<le> 2 powi (ex + 1)"
      using roundDouble_upper [OF assms(1)] by (simp add: ex_def)
    also have "\<dots> \<le> 2 powi ey"
      using lt by (intro power_int_increasing) simp_all
    also have "\<dots> \<le> roundDouble y"
      using roundDouble_lower [OF y by1(2)] by (simp add: by1(1))
    finally show ?thesis .
  qed
qed

lemma roundDouble_mono:
  assumes "x \<le> y"
  shows "roundDouble x \<le> roundDouble y"
proof -
  consider "0 < x" | "x \<le> 0" "0 \<le> y" | "y < 0" using assms by linarith
  then show ?thesis
  proof cases
    case 1
    then show ?thesis using assms by (rule roundDouble_mono_pos)
  next
    case 2
    have "roundDouble x \<le> 0"
      using roundDouble_nonneg [of "- x"] 2 by (simp add: roundDouble_minus)
    moreover have "0 \<le> roundDouble y" using 2 by (simp add: roundDouble_nonneg)
    ultimately show ?thesis by linarith
  next
    case 3
    then have "roundDouble (- y) \<le> roundDouble (- x)"
      using assms by (intro roundDouble_mono_pos) simp_all
    then show ?thesis by (simp add: roundDouble_minus)
  qed
qed

lemma roundDouble_grid:
  assumes "x / ulp x = of_int n"
  shows "roundDouble x = x"
proof -
  have "ulp x * (x / ulp x) = x" by simp
  then show ?thesis unfolding roundDouble_def assms roundHalfEven_int
    using assms by (simp add: field_simps)
qed

lemma roundDouble_eqI:
  assumes "0 < x" "2 powi e \<le> x" "x < 2 powi (e + 1)" "- 1022 \<le> e"
    and "roundHalfEven (x / 2 powi (e - 52)) = n"
  shows "roundDouble x = 2 powi (e - 52) * of_int n"
proof -
  have "binExp x = e" using assms(1-3) by (rule binExp_unique)
  then have "ulp x = 2 powi (e - 52)" using assms by (simp add: ulp_def max_def)
  then show ?thesis using assms by (simp add: roundDouble_def)
qed

lemma roundDouble_nat:
  assumes "real n \<le> 2 ^ 53"
  shows "roundDouble (real n) = real n"
proof (cases "n = 0")
  case True
  then show ?thesis by (simp add: roundDouble_def)
next
  case False
  then have pos: "0 < real n" by simp
  define e where "e = binExp (real n)"
  have b: "2 powi e \<le> real n" "real n < 2 powi (e + 1)"
    using binExp_bounds [OF pos] by (simp_all add: e_def)
  have e0: "0 \<le> e"
  proof (rule ccontr)
    assume "\<not> 0 \<le> e"
    then have "e + 1 \<le> 0" by linarith
    then have "(2::real) powi (e + 1) \<le> 2 powi 0" by (intro power_int_increasing) simp_all
    then have "real n < 1" using b(2) by simp
    then show False using False by simp
  qed
  have e53: "e \<le> 53"
  proof (rule ccontr)
    assume "\<not> e \<le> 53"
    then have "53 + 1 \<le> e" by linarith
    then have "(2::real) powi (53 + 1) \<le> 2 powi e" by (intro power_int_increasing) simp_all
    then have "(2::real) powi (53 + 1) \<le> 2 ^ 53" using b(1) assms by linarith
    then show False unfolding pow_split53 [of 53] by simp
  qed
  have u: "ulp (real n) = 2 powi (e - 52)" using e0 by (simp add: ulp_def e_def max_def)
  show ?thesis
  proof (cases "e \<le> 52")
    case True
    define k where "k = nat (52 - e)"
    have ek: "e - 52 = - int k" using True by (simp add: k_def)
    have p: "(2::real) powi (e - 52) = inverse (2 ^ k)"
      unfolding ek by (simp add: power_int_minus)
    have "real n / 2 powi (e - 52) = real n * 2 ^ k"
      unfolding p by (simp add: divide_inverse)
    also have "\<dots> = of_int (int n * 2 ^ k)" by simp
    finally have "real n / ulp (real n) = of_int (int n * 2 ^ k)" unfolding u .
    then show ?thesis by (rule roundDouble_grid)
  next
    case False
    then have e: "e = 53" using e53 by linarith
    have "real n < 2 powi (53 + 1)" using b(2) unfolding e .
    have "(2::real) ^ 53 \<le> real n" using b(1) unfolding e by simp
    then have n: "real n = 2 ^ 53" using assms by linarith
    have ue: "ulp (real n) = 2" unfolding u e by simp
    have "real n / ulp (real n) = real n / 2" by (simp only: ue)
    also have "\<dots> = 2 ^ 53 / 2" by (simp only: n)
    also have "\<dots> = of_int (2 ^ 52)" by simp
    finally show ?thesis by (rule roundDouble_grid)
  qed
qed

lemma roundDouble_int:
  assumes "\<bar>real_of_int n\<bar> \<le> 2 ^ 53"
  shows "roundDouble (real_of_int n) = real_of_int n"
proof (cases "0 \<le> n")
  case True
  then have r: "real_of_int n = real (nat n)" by simp
  have "real (nat n) \<le> 2 ^ 53" using assms unfolding r by linarith
  then show ?thesis unfolding r by (rule roundDouble_nat)
next
  case False
  then have r: "real_of_int n = - real (nat (- n))" by simp
  have "real (nat (- n)) \<le> 2 ^ 53" using assms unfolding r by linarith
  then have "roundDouble (real (nat (- n))) = real (nat (- n))" by (rule roundDouble_nat)
  then show ?thesis unfolding r roundDouble_minus by simp
qed

section \<open>Fields kept by the operations, and the invariant of the pending callbacks\<close>

lemma stopGlitch_fields [simp]:
  "cameras (stopGlitch s) = cameras s" "activeId (stopGlitch s) = activeId s"
  "panPaused (stopGlitch s) = panPaused s" "panNode (stopGlitch s) = panNode s"
  "lostSignalAnimationId (stopGlitch s) = lostSignalAnimationId s"
  "store (stopGlitch s) = store s" "nextNode (stopGlitch s) = nextNode s"
  "view (stopGlitch s) = view s" "togglePanText (stopGlitch s) = togglePanText s"
  "nextTimer (stopGlitch s) = nextTimer s" "frames (stopGlitch s) = frames s"
  "nextFrame (stopGlitch s) = nextFrame s" "rand (stopGlitch s) = rand s"
  "randIx (stopGlitch s) = randIx s"
  by (simp_all add: stopGlitch_def Let_def split: option.split)

lemma schedule_fields [simp]:
  "cameras (schedule mn mx s) = cameras s" "activeId (schedule mn mx s) = activeId s"
  "panPaused (schedule mn mx s) = panPaused s" "panNode (schedule mn mx s) = panNode s"
  "lostSignalAnimationId (schedule mn mx s) = lostSignalAnimationId s"
  "store (schedule mn mx s) = store s" "nextNode (schedule mn mx s) = nextNode s"
  "view (schedule mn mx s) = view s" "togglePanText (schedule mn mx s) = togglePanText s"
  "frames (schedule mn mx s) = frames s"
  "nextFrame (schedule mn mx s) = nextFrame s" "rand (schedule mn mx s) = rand s"
  "nextTimer (schedule mn mx s) = Suc (nextTimer s)"
  "glitchTimer (schedule mn mx s) = Some (nextTimer s)"
  "timers (schedule mn mx s) = timers s @
     [\<lparr>tid = nextTimer s, tmin = mn, tmax = mx,
       delay = glitchDelay mn mx (rand s (randIx s))\<rparr>]"
  by (simp_all add: schedule_def Math_random_def Let_def)

lemma stopLost_fields [simp]:
  "cameras (stopLostSignalEffect s) = cameras s" "activeId (stopLostSignalEffect s) = activeId s"
  "panPaused (stopLostSignalEffect s) = panPaused s" "panNode (stopLostSignalEffect s) = panNode s"
  "glitchTimer (stopLostSignalEffect s) = glitchTimer s"
  "store (stopLostSignalEffect s) = store s" "nextNode (stopLostSignalEffect s) = nextNode s"
  "view (stopLostSignalEffect s) = view s" "togglePanText (stopLostSignalEffect s) = togglePanText s"
  "timers (stopLostSignalEffect s) = timers s" "nextTimer (stopLostSignalEffect s) = nextTimer s"
  "nextFrame (stopLostSignalEffect s) = nextFrame s" "rand (stopLostSignalEffect s) = rand s"
  "randIx (stopLostSignalEffect s) = randIx s" "viewW (stopLostSignalEffect s) = viewW s"
  "viewH (stopLostSignalEffect s) = viewH s"
  by (simp_all add: stopLostSignalEffect_def split: option.split)

lemma raf_fields [simp]:
  "cameras (requestAnimationFrame e s) = cameras s" "activeId (requestAnimationFrame e s) = activeId s"
  "panPaused (requestAnimationFrame e s) = panPaused s" "panNode (requestAnimationFrame e s) = panNode s"
  "glitchTimer (requestAnimationFrame e s) = glitchTimer s"
  "store (requestAnimationFrame e s) = store s" "nextNode (requestAnimationFrame e s) = nextNode s"
  "view (requestAnimationFrame e s) = view s" "togglePanText (requestAnimationFrame e s) = togglePanText s"
  "timers (requestAnimationFrame e s) = timers s" "nextTimer (requestAnimationFrame e s) = nextTimer s"
  "rand (requestAnimationFrame e s) = rand s" "randIx (requestAnimationFrame e s) = randIx s"
  "nextFrame (requestAnimationFrame e s) = Suc (nextFrame s)"
  "lostSignalAnimationId (requestAnimationFrame e s) = Some (nextFrame s)"
  "frames (requestAnimationFrame e s) = frames s @ [\<lparr>fid = nextFrame s, fenv = e\<rparr>]"
  by (simp_all add: requestAnimationFrame_def Let_def)

lemma setPlayState_fields [simp]:
  "cameras (setPlayState v s) = cameras s" "activeId (setPlayState v s) = activeId s"
  "panPaused (setPlayState v s) = panPaused s" "panNode (setPlayState v s) = panNode s"
  "glitchTimer (setPlayState v s) = glitchTimer s"
  "lostSignalAnimationId (setPlayState v s) = lostSignalAnimationId s"
  "nextNode (setPlayState v s) = nextNode s"
  "view (setPlayState v s) = view s" "togglePanText (setPlayState v s) = togglePanText s"
  "timers (setPlayState v s) = timers s" "nextTimer (setPlayState v s) = nextTimer s"
  "frames (setPlayState v s) = frames s" "nextFrame (setPlayState v s) = nextFrame s"
  "rand (setPlayState v s) = rand s" "randIx (setPlayState v s) = randIx s"
  by (simp_all add: setPlayState_def split: option.split)

lemma stopGlitch_clears:
  "pendingOk s \<Longrightarrow> timers (stopGlitch s) = [] \<and> glitchTimer (stopGlitch s) = None"
  by (cases "timers s") (auto simp: pendingOk_def handleOk_def stopGlitch_def Let_def split: option.splits)

lemma stopLost_clears:
  "pendingOk s \<Longrightarrow> frames (stopLostSignalEffect s) = [] \<and> lostSignalAnimationId (stopLostSignalEffect s) = None"
  by (cases "frames s") (auto simp: pendingOk_def handleOk_def stopLostSignalEffect_def split: option.splits)

lemma pendingOk_cong:
  "nextTimer s' = nextTimer s \<Longrightarrow> nextFrame s' = nextFrame s \<Longrightarrow> glitchTimer s' = glitchTimer s \<Longrightarrow>
   timers s' = timers s \<Longrightarrow> lostSignalAnimationId s' = lostSignalAnimationId s \<Longrightarrow> frames s' = frames s \<Longrightarrow>
   pendingOk s' = pendingOk s"
  by (simp add: pendingOk_def)

lemma pendingOk_updates [simp]:
  "pendingOk (s\<lparr>view := v\<rparr>) = pendingOk s"
  "pendingOk (s\<lparr>panNode := pn\<rparr>) = pendingOk s"
  "pendingOk (s\<lparr>activeId := a\<rparr>) = pendingOk s"
  "pendingOk (s\<lparr>console := c\<rparr>) = pendingOk s"
  "pendingOk (s\<lparr>ariaLabel := l\<rparr>) = pendingOk s"
  "pendingOk (s\<lparr>glitchShow := g\<rparr>) = pendingOk s"
  "pendingOk (s\<lparr>randIx := r\<rparr>) = pendingOk s"
  "pendingOk (s\<lparr>panPaused := b\<rparr>) = pendingOk s"
  "pendingOk (s\<lparr>togglePanText := x\<rparr>) = pendingOk s"
  by (simp_all add: pendingOk_def)

lemma pendingOk_stopGlitch: "pendingOk s \<Longrightarrow> pendingOk (stopGlitch s)"
  using stopGlitch_clears [of s] by (simp add: pendingOk_def handleOk_def)

lemma pendingOk_stopLost: "pendingOk s \<Longrightarrow> pendingOk (stopLostSignalEffect s)"
  using stopLost_clears [of s] by (simp add: pendingOk_def handleOk_def)

lemma pendingOk_schedule: "pendingOk s \<Longrightarrow> timers s = [] \<Longrightarrow> pendingOk (schedule mn mx s)"
  by (simp add: pendingOk_def handleOk_def split: option.splits)

lemma pendingOk_raf: "pendingOk s \<Longrightarrow> frames s = [] \<Longrightarrow> pendingOk (requestAnimationFrame e s)"
  by (simp add: pendingOk_def handleOk_def split: option.splits)

lemma pendingOk_triggerGlitch: "pendingOk s \<Longrightarrow> pendingOk (triggerGlitch mn mx s)"
  unfolding triggerGlitch_def
  by (rule pendingOk_schedule) (simp_all add: pendingOk_stopGlitch stopGlitch_clears)

lemma pendingOk_startLost: "pendingOk s \<Longrightarrow> pendingOk (startLostSignalEffect w h s)"
  unfolding startLostSignalEffect_def
  by (rule pendingOk_raf) (simp_all add: pendingOk_stopLost stopLost_clears)


lemma mountMedia_fields [simp]:
  "cameras (mountMedia cam s) = cameras s" "activeId (mountMedia cam s) = activeId s"
  "panPaused (mountMedia cam s) = panPaused s" "panNode (mountMedia cam s) = Some (nextNode s)"
  "glitchTimer (mountMedia cam s) = glitchTimer s"
  "lostSignalAnimationId (mountMedia cam s) = lostSignalAnimationId s"
  "store (mountMedia cam s) = (store s)(nextNode s := mediaElement cam)"
  "view (mountMedia cam s) = view s @ [Media (nextNode s)]"
  "timers (mountMedia cam s) = timers s" "nextTimer (mountMedia cam s) = nextTimer s"
  "frames (mountMedia cam s) = frames s" "nextFrame (mountMedia cam s) = nextFrame s"
  "rand (mountMedia cam s) = rand s" "randIx (mountMedia cam s) = randIx s"
  by (simp_all add: mountMedia_def Let_def)

lemma startLost_fields [simp]:
  "cameras (startLostSignalEffect w h s) = cameras s" "activeId (startLostSignalEffect w h s) = activeId s"
  "panPaused (startLostSignalEffect w h s) = panPaused s" "panNode (startLostSignalEffect w h s) = panNode s"
  "glitchTimer (startLostSignalEffect w h s) = glitchTimer s"
  "store (startLostSignalEffect w h s) = store s"
  "view (startLostSignalEffect w h s) = view s"
  "timers (startLostSignalEffect w h s) = timers s" "nextTimer (startLostSignalEffect w h s) = nextTimer s"
  "rand (startLostSignalEffect w h s) = rand s" "randIx (startLostSignalEffect w h s) = randIx s"
  "nextFrame (startLostSignalEffect w h s) = Suc (nextFrame s)"
  "lostSignalAnimationId (startLostSignalEffect w h s) = Some (nextFrame s)"
  by (simp_all add: startLostSignalEffect_def)

lemma startLost_frames:
  "pendingOk s \<Longrightarrow> frames (startLostSignalEffect w h s) = [\<lparr>fid = nextFrame s, fenv = newNoiseEnv w h\<rparr>]"
  by (simp add: startLostSignalEffect_def stopLost_clears)

lemma mountLostSignal_fields [simp]:
  "cameras (mountLostSignal s) = cameras s" "activeId (mountLostSignal s) = activeId s"
  "panPaused (mountLostSignal s) = panPaused s" "panNode (mountLostSignal s) = None"
  "glitchTimer (mountLostSignal s) = glitchTimer s"
  "store (mountLostSignal s) = store s"
  "view (mountLostSignal s) = view s @ [LostSignalContainer (if viewW s \<noteq> 0 then viewW s else 800)
      (if viewH s \<noteq> 0 then viewH s else 600)]"
  "timers (mountLostSignal s) = timers s" "nextTimer (mountLostSignal s) = nextTimer s"
  "rand (mountLostSignal s) = rand s" "randIx (mountLostSignal s) = randIx s"
  "nextFrame (mountLostSignal s) = Suc (nextFrame s)"
  "lostSignalAnimationId (mountLostSignal s) = Some (nextFrame s)"
  by (simp_all add: mountLostSignal_def Let_def)

lemma mountLostSignal_frames:
  "pendingOk s \<Longrightarrow> frames (mountLostSignal s) =
     [\<lparr>fid = nextFrame s, fenv = newNoiseEnv (if viewW s \<noteq> 0 then viewW s else 800)
        (if viewH s \<noteq> 0 then viewH s else 600)\<rparr>]"
proof -
  assume ok: "pendingOk s"
  let ?s1 = "s\<lparr>view := view s @ [LostSignalContainer (if viewW s \<noteq> 0 then viewW s else 800)
      (if viewH s \<noteq> 0 then viewH s else 600)], panNode := None\<rparr>"
  have "pendingOk ?s1" using ok by simp
  from startLost_frames [OF this] show ?thesis by (simp add: mountLostSignal_def Let_def)
qed

lemma pendingOk_mountMedia: "pendingOk s \<Longrightarrow> pendingOk (mountMedia cam s)"
  by (simp add: pendingOk_cong [of "mountMedia cam s" s])

lemma pendingOk_mountLostSignal: "pendingOk s \<Longrightarrow> pendingOk (mountLostSignal s)"
proof -
  assume ok: "pendingOk s"
  let ?s1 = "s\<lparr>view := view s @ [LostSignalContainer (if viewW s \<noteq> 0 then viewW s else 800)
      (if viewH s \<noteq> 0 then viewH s else 600)], panNode := None\<rparr>"
  have "pendingOk ?s1" using ok by simp
  from pendingOk_startLost [OF this] show ?thesis by (simp add: mountLostSignal_def Let_def)
qed

lemma mountScene_fields [simp]:
  "cameras (mountScene cam s) = cameras s" "activeId (mountScene cam s) = activeId s"
  "panPaused (mountScene cam s) = panPaused s"
  "glitchTimer (mountScene cam s) = glitchTimer s"
  "timers (mountScene cam s) = timers s" "nextTimer (mountScene cam s) = nextTimer s"
  "rand (mountScene cam s) = rand s" "randIx (mountScene cam s) = randIx s"
  "panNode (mountScene cam s) = (if status cam = ''LOST SIGNAL'' then None else Some (nextNode s))"
  "store (mountScene cam s) =
     (if status cam = ''LOST SIGNAL'' then store s else (store s)(nextNode s := mediaElement cam))"
  "view (mountScene cam s) =
     (if status cam = ''LOST SIGNAL''
      then [LostSignalContainer (if viewW s \<noteq> 0 then viewW s else 800)
              (if viewH s \<noteq> 0 then viewH s else 600)]
      else [Media (nextNode s)])"
  "nextFrame (mountScene cam s) = (if status cam = ''LOST SIGNAL'' then Suc (nextFrame s) else nextFrame s)"
  "lostSignalAnimationId (mountScene cam s) =
     (if status cam = ''LOST SIGNAL'' then Some (nextFrame s) else lostSignalAnimationId s)"
  by (simp_all add: mountScene_def Let_def)

lemma mountScene_frames:
  "pendingOk s \<Longrightarrow> frames (mountScene cam s) =
     (if status cam = ''LOST SIGNAL''
      then [\<lparr>fid = nextFrame s, fenv = newNoiseEnv (if viewW s \<noteq> 0 then viewW s else 800)
               (if viewH s \<noteq> 0 then viewH s else 600)\<rparr>]
      else frames s)"
proof -
  assume ok: "pendingOk s"
  have "pendingOk (s\<lparr>view := []\<rparr>)" using ok by simp
  from mountLostSignal_frames [OF this] show ?thesis by (simp add: mountScene_def Let_def)
qed

lemma pendingOk_mountScene: "pendingOk s \<Longrightarrow> pendingOk (mountScene cam s)"
proof -
  assume ok: "pendingOk s"
  have "pendingOk (s\<lparr>view := []\<rparr>)" using ok by simp
  then show ?thesis by (simp add: mountScene_def Let_def pendingOk_mountMedia pendingOk_mountLostSignal)
qed

lemma updateUi_fields [simp]:
  "cameras (updateUi i cam s) = cameras s" "activeId (updateUi i cam s) = activeId s"
  "panPaused (updateUi i cam s) = panPaused s" "panNode (updateUi i cam s) = panNode s"
  "glitchTimer (updateUi i cam s) = glitchTimer s"
  "lostSignalAnimationId (updateUi i cam s) = lostSignalAnimationId s"
  "store (updateUi i cam s) = store s" "view (updateUi i cam s) = view s"
  "timers (updateUi i cam s) = timers s" "nextTimer (updateUi i cam s) = nextTimer s"
  "frames (updateUi i cam s) = frames s" "nextFrame (updateUi i cam s) = nextFrame s"
  "rand (updateUi i cam s) = rand s" "randIx (updateUi i cam s) = randIx s"
  by (simp_all add: updateUi_def)

lemma resetPan_fields [simp]:
  "cameras (resetPan cam s) = cameras s" "activeId (resetPan cam s) = activeId s"
  "panPaused (resetPan cam s) = False" "panNode (resetPan cam s) = panNode s"
  "togglePanText (resetPan cam s) = ''PAUSE PAN''"
  "glitchTimer (resetPan cam s) = glitchTimer s"
  "lostSignalAnimationId (resetPan cam s) = lostSignalAnimationId s"
  "view (resetPan cam s) = view s"
  "timers (resetPan cam s) = timers s" "nextTimer (resetPan cam s) = nextTimer s"
  "frames (resetPan cam s) = frames s" "nextFrame (resetPan cam s) = nextFrame s"
  "rand (resetPan cam s) = rand s" "randIx (resetPan cam s) = randIx s"
  by (simp_all add: resetPan_def Let_def)

lemma resetPan_store:
  "store (resetPan cam s) =
     (case panNode s of
        None \<Rightarrow> store s
      | Some p \<Rightarrow> if panEnabled cam then (store s)(p := (store s p)\<lparr>animationPlayState := ''running''\<rparr>)
                  else store s)"
  by (simp add: resetPan_def Let_def setPlayState_def split: option.split)

lemma statusEffects_fields [simp]:
  "cameras (statusEffects cam s) = cameras s" "activeId (statusEffects cam s) = activeId s"
  "panPaused (statusEffects cam s) = panPaused s" "panNode (statusEffects cam s) = panNode s"
  "togglePanText (statusEffects cam s) = togglePanText s"
  "lostSignalAnimationId (statusEffects cam s) = lostSignalAnimationId s"
  "store (statusEffects cam s) = store s" "view (statusEffects cam s) = view s"
  "frames (statusEffects cam s) = frames s" "nextFrame (statusEffects cam s) = nextFrame s"
  "rand (statusEffects cam s) = rand s"
  by (simp_all add: statusEffects_def Let_def triggerGlitch_def)

lemma statusEffects_timers:
  "pendingOk s \<Longrightarrow>
   timers (statusEffects cam s) =
     (if glitchy cam
      then [\<lparr>tid = nextTimer s, tmin = glitchMinMs cam, tmax = glitchMaxMs cam,
              delay = glitchDelay (glitchMinMs cam) (glitchMaxMs cam) (rand s (randIx s))\<rparr>]
      else []) \<and>
   glitchTimer (statusEffects cam s) = (if glitchy cam then Some (nextTimer s) else None) \<and>
   nextTimer (statusEffects cam s) = (if glitchy cam then Suc (nextTimer s) else nextTimer s)"
  by (simp add: statusEffects_def Let_def triggerGlitch_def glitchy_def stopGlitch_clears
        pendingOk_stopGlitch)

lemma pendingOk_statusEffects: "pendingOk s \<Longrightarrow> pendingOk (statusEffects cam s)"
  by (simp add: statusEffects_def Let_def pendingOk_triggerGlitch pendingOk_stopGlitch)

lemma pendingOk_resetPan: "pendingOk s \<Longrightarrow> pendingOk (resetPan cam s)"
  by (simp add: pendingOk_cong [of "resetPan cam s" s])

lemma pendingOk_updateUi: "pendingOk s \<Longrightarrow> pendingOk (updateUi i cam s)"
  by (simp add: pendingOk_cong [of "updateUi i cam s" s])

lemma loadScene_known:
  "cameras s ident = Some cam \<Longrightarrow>
     loadScene ident s = (statusEffects cam (shown ident cam s))
        \<lparr>ariaLabel := ''Camera '' @ location cam @ ''. Status '' @ status cam @ ''.''\<rparr>"
  by (simp add: loadScene_def lookupCamera_def shown_def Let_def)

lemma loadInherited_fields [simp]:
  "cameras (loadInherited ident s) = cameras s" "rand (loadInherited ident s) = rand s"
  "timers (loadInherited ident s) = timers s" "glitchTimer (loadInherited ident s) = glitchTimer s"
  "nextTimer (loadInherited ident s) = nextTimer s" "panPaused (loadInherited ident s) = panPaused s"
  "activeId (loadInherited ident s) = Some ident"
  "view (loadInherited ident s) = [Media (nextNode s)]"
  "panNode (loadInherited ident s) = Some (nextNode s)"
  by (simp_all add: loadInherited_def Let_def)

lemma pendingOk_loadInherited: "pendingOk s \<Longrightarrow> pendingOk (loadInherited ident s)"
proof -
  assume "pendingOk s"
  then have "pendingOk (stopLostSignalEffect (s\<lparr>activeId := Some ident\<rparr>))"
    by (intro pendingOk_stopLost) simp
  then show ?thesis
    by (simp add: loadInherited_def Let_def pendingOk_def)
qed

lemma loadScene_unknown:
  "cameras s ident = None \<Longrightarrow>
     loadScene ident s =
       (if ident \<in> set protoNames then loadInherited ident s
        else s\<lparr>console := console s @ [''Camera '' @ ident @ '' not found'']\<rparr>)"
  by (simp add: loadScene_def lookupCamera_def)

lemma shown_fields [simp]:
  "cameras (shown ident cam s) = cameras s" "activeId (shown ident cam s) = Some ident"
  "panPaused (shown ident cam s) = False" "togglePanText (shown ident cam s) = ''PAUSE PAN''"
  "glitchTimer (shown ident cam s) = glitchTimer s" "timers (shown ident cam s) = timers s"
  "nextTimer (shown ident cam s) = nextTimer s" "rand (shown ident cam s) = rand s"
  "randIx (shown ident cam s) = randIx s"
  "panNode (shown ident cam s) = (if status cam = ''LOST SIGNAL'' then None else Some (nextNode s))"
  "view (shown ident cam s) =
     (if status cam = ''LOST SIGNAL''
      then [LostSignalContainer (if viewW s \<noteq> 0 then viewW s else 800)
              (if viewH s \<noteq> 0 then viewH s else 600)]
      else [Media (nextNode s)])"
  by (simp_all add: shown_def)

lemma shown_store:
  "store (shown ident cam s) =
     (if status cam = ''LOST SIGNAL'' then store s
      else if panEnabled cam
      then (store s)(nextNode s := (mediaElement cam)\<lparr>animationPlayState := ''running''\<rparr>)
      else (store s)(nextNode s := mediaElement cam))"
  by (simp add: shown_def resetPan_store)

lemma loadScene_fields:
  assumes "cameras s ident = Some cam"
  shows "cameras (loadScene ident s) = cameras s"
    and "activeId (loadScene ident s) = Some ident"
    and "panPaused (loadScene ident s) = False"
    and "togglePanText (loadScene ident s) = ''PAUSE PAN''"
    and "panNode (loadScene ident s) =
           (if status cam = ''LOST SIGNAL'' then None else Some (nextNode s))"
    and "view (loadScene ident s) =
           (if status cam = ''LOST SIGNAL''
            then [LostSignalContainer (if viewW s \<noteq> 0 then viewW s else 800)
                    (if viewH s \<noteq> 0 then viewH s else 600)]
            else [Media (nextNode s)])"
    and "store (loadScene ident s) =
           (if status cam = ''LOST SIGNAL'' then store s
            else if panEnabled cam
            then (store s)(nextNode s := (mediaElement cam)\<lparr>animationPlayState := ''running''\<rparr>)
            else (store s)(nextNode s := mediaElement cam))"
  by (simp_all add: loadScene_known [OF assms] shown_store)

lemma pendingOk_shown: "pendingOk s \<Longrightarrow> pendingOk (shown ident cam s)"
proof -
  assume ok: "pendingOk s"
  have "pendingOk (s\<lparr>activeId := Some ident\<rparr>)"
    using ok by (simp add: pendingOk_cong [of "s\<lparr>activeId := Some ident\<rparr>" s])
  then show ?thesis
    unfolding shown_def
    by (intro pendingOk_resetPan pendingOk_updateUi pendingOk_mountScene pendingOk_stopLost)
qed

lemma shown_frames:
  "pendingOk s \<Longrightarrow> frames (shown ident cam s) =
     (if status cam = ''LOST SIGNAL''
      then [\<lparr>fid = nextFrame s, fenv = newNoiseEnv (if viewW s \<noteq> 0 then viewW s else 800)
               (if viewH s \<noteq> 0 then viewH s else 600)\<rparr>]
      else []) \<and>
   lostSignalAnimationId (shown ident cam s) = (if status cam = ''LOST SIGNAL'' then Some (nextFrame s) else None)"
proof -
  assume ok: "pendingOk s"
  let ?a = "s\<lparr>activeId := Some ident\<rparr>"
  have a: "pendingOk ?a"
    using ok by (simp add: pendingOk_cong [of ?a s])
  have b: "pendingOk (stopLostSignalEffect ?a)" using a by (rule pendingOk_stopLost)
  show ?thesis
    using mountScene_frames [OF b, of cam] stopLost_clears [OF a]
    by (simp add: shown_def)
qed

lemma pendingOk_loadScene: "pendingOk s \<Longrightarrow> pendingOk (loadScene ident s)"
proof (cases "cameras s ident")
  case None
  assume "pendingOk s"
  then show ?thesis
    by (simp add: loadScene_unknown [OF None] pendingOk_loadInherited)
next
  case (Some cam)
  assume "pendingOk s"
  then have "pendingOk (statusEffects cam (shown ident cam s))"
    by (intro pendingOk_statusEffects pendingOk_shown)
  then show ?thesis
    by (simp add: loadScene_known [OF Some] pendingOk_cong [of "x\<lparr>ariaLabel := c\<rparr>" x for c x])
qed


lemma pendingOk_timers_cases:
  "pendingOk s \<Longrightarrow> timers s = [] \<or> (\<exists>x. timers s = [x] \<and> glitchTimer s = Some (tid x))"
  by (cases "timers s"; cases "tl (timers s)")
     (auto simp: pendingOk_def handleOk_def split: option.splits)

lemma pendingOk_frames_cases:
  "pendingOk s \<Longrightarrow> frames s = [] \<or> (\<exists>x. frames s = [x] \<and> lostSignalAnimationId s = Some (fid x))"
  by (cases "frames s"; cases "tl (frames s)")
     (auto simp: pendingOk_def handleOk_def split: option.splits)

lemma pendingOk_bump: "pendingOk s \<Longrightarrow> timers s = [] \<Longrightarrow> pendingOk (bump mn mx s)"
  unfolding bump_def by (rule pendingOk_schedule) simp_all

lemma pendingOk_timerFires: "pendingOk s \<Longrightarrow> pendingOk (timerFires n s)"
proof -
  assume ok: "pendingOk s"
  from pendingOk_timers_cases [OF ok] show ?thesis
  proof
    assume "timers s = []"
    then show ?thesis using ok by (simp add: timerFires_def)
  next
    assume "\<exists>x. timers s = [x] \<and> glitchTimer s = Some (tid x)"
    then obtain x where x: "timers s = [x]" "glitchTimer s = Some (tid x)" by blast
    show ?thesis
    proof (cases "tid x = n")
      case False
      then show ?thesis using ok x by (simp add: timerFires_def)
    next
      case True
      have "pendingOk (s\<lparr>timers := []\<rparr>)"
        using ok x by (simp add: pendingOk_def handleOk_def)
      then have "pendingOk (bump (tmin x) (tmax x) (s\<lparr>timers := []\<rparr>))"
        by (rule pendingOk_bump) simp
      then show ?thesis using True x by (simp add: timerFires_def)
    qed
  qed
qed

lemma pendingOk_drawNoise: "pendingOk s \<Longrightarrow> frames s = [] \<Longrightarrow> pendingOk (drawNoise e now s)"
  by (simp add: drawNoise_def Let_def pendingOk_raf split: prod.split)

lemma pendingOk_frameFires: "pendingOk s \<Longrightarrow> pendingOk (frameFires n now s)"
proof -
  assume ok: "pendingOk s"
  from pendingOk_frames_cases [OF ok] show ?thesis
  proof
    assume "frames s = []"
    then show ?thesis using ok by (simp add: frameFires_def)
  next
    assume "\<exists>x. frames s = [x] \<and> lostSignalAnimationId s = Some (fid x)"
    then obtain x where x: "frames s = [x]" "lostSignalAnimationId s = Some (fid x)" by blast
    show ?thesis
    proof (cases "fid x = n")
      case False
      then show ?thesis using ok x by (simp add: frameFires_def)
    next
      case True
      have "pendingOk (s\<lparr>frames := []\<rparr>)"
        using ok x by (simp add: pendingOk_def handleOk_def)
      then have "pendingOk (drawNoise (fenv x) now (s\<lparr>frames := []\<rparr>))"
        by (rule pendingOk_drawNoise) simp
      then show ?thesis using True x by (simp add: frameFires_def)
    qed
  qed
qed

lemma pendingOk_togglePan: "pendingOk s \<Longrightarrow> pendingOk (togglePan s)"
  by (simp add: togglePan_def Let_def pendingOk_cong [of "setPlayState v x" x for v x])

lemma pendingOk_step: "pendingOk s \<Longrightarrow> pendingOk (step e s)"
  by (cases e)
     (simp_all add: pendingOk_loadScene pendingOk_triggerGlitch pendingOk_stopGlitch
        pendingOk_startLost pendingOk_stopLost pendingOk_togglePan pendingOk_timerFires
        pendingOk_frameFires)

lemma pendingOk_run: "pendingOk s \<Longrightarrow> pendingOk (run evs s)"
  unfolding run_def by (induction evs arbitrary: s) (simp_all add: pendingOk_step)

lemma pendingOk_at_most_one:
  "pendingOk s \<Longrightarrow> length (timers s) \<le> 1 \<and> length (frames s) \<le> 1"
  using pendingOk_timers_cases [of s] pendingOk_frames_cases [of s] by auto

lemma pendingOk_initial: "pendingOk (initial cams w h rnd)"
  by (simp add: initial_def pendingOk_def handleOk_def)

lemma loadScene_pending:
  assumes ok: "pendingOk s" and cam: "cameras s ident = Some cam"
  shows "timers (loadScene ident s) =
           (if glitchy cam
            then [\<lparr>tid = nextTimer s, tmin = glitchMinMs cam, tmax = glitchMaxMs cam,
                    delay = glitchDelay (glitchMinMs cam) (glitchMaxMs cam) (rand s (randIx s))\<rparr>]
            else [])"
    and "glitchTimer (loadScene ident s) = (if glitchy cam then Some (nextTimer s) else None)"
    and "frames (loadScene ident s) =
           (if status cam = ''LOST SIGNAL''
            then [\<lparr>fid = nextFrame s, fenv = newNoiseEnv (if viewW s \<noteq> 0 then viewW s else 800)
                     (if viewH s \<noteq> 0 then viewH s else 600)\<rparr>]
            else [])"
    and "lostSignalAnimationId (loadScene ident s) =
           (if status cam = ''LOST SIGNAL'' then Some (nextFrame s) else None)"
proof -
  have sh: "pendingOk (shown ident cam s)" using ok by (rule pendingOk_shown)
  have eq: "nextTimer (shown ident cam s) = nextTimer s" "rand (shown ident cam s) = rand s"
    "randIx (shown ident cam s) = randIx s"
    by (simp_all add: shown_def)
  show "timers (loadScene ident s) =
           (if glitchy cam
            then [\<lparr>tid = nextTimer s, tmin = glitchMinMs cam, tmax = glitchMaxMs cam,
                    delay = glitchDelay (glitchMinMs cam) (glitchMaxMs cam) (rand s (randIx s))\<rparr>]
            else [])"
    using statusEffects_timers [OF sh, of cam] by (simp add: loadScene_known [OF cam] eq)
  show "glitchTimer (loadScene ident s) = (if glitchy cam then Some (nextTimer s) else None)"
    using statusEffects_timers [OF sh, of cam] by (simp add: loadScene_known [OF cam] eq)
  show "frames (loadScene ident s) =
           (if status cam = ''LOST SIGNAL''
            then [\<lparr>fid = nextFrame s, fenv = newNoiseEnv (if viewW s \<noteq> 0 then viewW s else 800)
                     (if viewH s \<noteq> 0 then viewH s else 600)\<rparr>]
            else [])"
    using shown_frames [OF ok, of ident cam] by (simp add: loadScene_known [OF cam])
  show "lostSignalAnimationId (loadScene ident s) =
           (if status cam = ''LOST SIGNAL'' then Some (nextFrame s) else None)"
    using shown_frames [OF ok, of ident cam] by (simp add: loadScene_known [OF cam])
qed

lemma cameras_step [simp]: "cameras (step e s) = cameras s"
  apply (cases e)
  apply (simp_all add: loadScene_def Let_def triggerGlitch_def togglePan_def timerFires_def frameFires_def bump_def drawNoise_def split: option.split prod.split lookup.split)
  done

lemma cameras_run [simp]: "cameras (run evs s) = cameras s"
  unfolding run_def by (induction evs arbitrary: s) simp_all

section \<open>Facts about the example\<close>

lemma demoState_simps [simp]:
  "cameras demoState ''cam-corridor'' = Some camCorridor"
  "cameras demoState ''cam-lab'' = Some camLab"
  "cameras demoState ''cam-dock'' = Some camDock"
  "cameras demoState ''cam-vent'' = Some camVent"
  "cameras demoState ''cam-hub'' = Some camHub"
  "cameras demoState ''nonexistent'' = None"
  "nextNode demoState = 0" "nextTimer demoState = 1" "nextFrame demoState = 1"
  "viewW demoState = 800" "viewH demoState = 600"
  "rand demoState n = 1 / 2" "randIx demoState = 0"
  "timers demoState = []" "frames demoState = []"
  by (simp_all add: demoState_def initial_def demoCameras_def)

lemma pendingOk_demoState [simp]: "pendingOk demoState"
  by (simp add: demoState_def pendingOk_initial)

lemma demoCamera_simps [simp]:
  "status camCorridor = ''ONLINE''" "panEnabled camCorridor" "imageUrl camCorridor = ''corridor.jpg''"
  "status camLab = ''FLICKER''" "\<not> panEnabled camLab"
  "glitchMinMs camLab = Fin 400" "glitchMaxMs camLab = Fin 1200"
  "status camDock = ''LOST SIGNAL''" "panEnabled camDock"
  "glitchMinMs camDock = Fin 400" "glitchMaxMs camDock = Fin 1200"
  "status camVent = ''OFFLINE''" "imageUrl camVent = []" "\<not> panEnabled camVent"
  "status camHub = ''INTERFERENCE''" "glitchMinMs camHub = Fin 500" "glitchMaxMs camHub = Fin 500"
  by (simp_all add: camCorridor_def camLab_def camDock_def camVent_def camHub_def demoCamera_def)

section \<open>The pan toggle and the delays of the scheduler\<close>

lemma togglePan_fields [simp]:
  "panPaused (togglePan s) = (\<not> panPaused s)"
  "togglePanText (togglePan s) = (if panPaused s then ''PAUSE PAN'' else ''RESUME PAN'')"
  "panNode (togglePan s) = panNode s" "view (togglePan s) = view s"
  "timers (togglePan s) = timers s" "frames (togglePan s) = frames s"
  "rand (togglePan s) = rand s"
  by (simp_all add: togglePan_def Let_def)

lemma togglePan_playState:
  "playState (togglePan s) =
     (case panNode s of None \<Rightarrow> None
      | Some p \<Rightarrow> Some (if panPaused s then ''running'' else ''paused''))"
  by (simp add: togglePan_def Let_def playState_def setPlayState_def split: option.split)

lemma loadScene_playState:
  "cameras s ident = Some cam \<Longrightarrow>
   playState (loadScene ident s) =
     (if status cam = ''LOST SIGNAL'' then None
      else Some (if panEnabled cam then ''running'' else []))"
  by (simp add: playState_def loadScene_fields mediaElement_def createElement_def Let_def)

lemma rand_step [simp]: "rand (step e s) = rand s"
  by (cases e)
     (simp_all add: loadScene_def Let_def triggerGlitch_def timerFires_def frameFires_def
        bump_def drawNoise_def split: option.split prod.split lookup.split)

lemma toDouble_Fin: "\<bar>roundDouble x\<bar> < 2 ^ 1024 \<Longrightarrow> toDouble x = Fin (roundDouble x)"
  by (auto simp add: toDouble_def Let_def abs_less_iff)

lemma roundDouble_small:
  assumes "\<bar>x\<bar> \<le> 2 ^ 53"
  shows "\<bar>roundDouble x\<bar> \<le> 2 ^ 53"
proof -
  have f: "roundDouble (real_of_int (2 ^ 53)) = real_of_int (2 ^ 53)"
    by (rule roundDouble_int) simp
  have "roundDouble x \<le> roundDouble (real_of_int (2 ^ 53))"
    using assms by (intro roundDouble_mono) simp
  moreover have "roundDouble (- real_of_int (2 ^ 53)) \<le> roundDouble x"
    using assms by (intro roundDouble_mono) simp
  ultimately show ?thesis unfolding roundDouble_minus f by simp
qed

lemma toDouble_small: "\<bar>x\<bar> \<le> 2 ^ 53 \<Longrightarrow> toDouble x = Fin (roundDouble x)"
  using roundDouble_small [of x] by (intro toDouble_Fin) simp

lemma toDouble_int: "\<bar>real_of_int n\<bar> \<le> 2 ^ 53 \<Longrightarrow> toDouble (real_of_int n) = Fin (real_of_int n)"
  by (simp add: toDouble_small roundDouble_int)

lemma toDouble_nat: "real n \<le> 2 ^ 53 \<Longrightarrow> toDouble (real n) = Fin (real n)"
  by (simp add: toDouble_small roundDouble_nat)

text \<open>For integer bounds of magnitude up to \<open>2 ^ 52\<close> the subtraction is exact and the
  two roundings keep the delay between the bounds.\<close>

lemma glitchDelay_bounds:
  fixes a b :: int
  assumes r: "0 \<le> r" "r < 1" and ab: "a \<le> b" and m: "\<bar>a\<bar> \<le> 2 ^ 52" "\<bar>b\<bar> \<le> 2 ^ 52"
  shows "\<exists>d. glitchDelay (Fin (of_int a)) (Fin (of_int b)) r = Fin d \<and> of_int a \<le> d \<and> d \<le> of_int b"
proof -
  define w where "w = b - a"
  have w: "0 \<le> w" "w \<le> 2 ^ 53" using ab m by (simp_all add: w_def)
  have wr: "\<bar>real_of_int w\<bar> \<le> 2 ^ 53"
  proof -
    have "real_of_int w \<le> real_of_int (2 ^ 53)" using w(2) by (rule of_int_le_iff [THEN iffD2])
    moreover have "0 \<le> real_of_int w" using w(1) by simp
    ultimately show ?thesis by simp
  qed
  have ar: "\<bar>real_of_int a\<bar> \<le> 2 ^ 53"
  proof -
    have "\<bar>a\<bar> \<le> 2 ^ 53" using m by simp
    then have "real_of_int \<bar>a\<bar> \<le> real_of_int (2 ^ 53)" by (rule of_int_le_iff [THEN iffD2])
    then show ?thesis by simp
  qed
  have br: "\<bar>real_of_int b\<bar> \<le> 2 ^ 53"
  proof -
    have "\<bar>b\<bar> \<le> 2 ^ 53" using m by simp
    then have "real_of_int \<bar>b\<bar> \<le> real_of_int (2 ^ 53)" by (rule of_int_le_iff [THEN iffD2])
    then show ?thesis by simp
  qed
  have sub: "jsSub (Fin (of_int b)) (Fin (of_int a)) = Fin (of_int w)"
  proof -
    have "real_of_int b + - real_of_int a = real_of_int w" by (simp add: w_def)
    then show ?thesis using toDouble_int [OF wr] by (simp add: jsSub_def jsNeg_def jsAdd_def)
  qed
  define p where "p = roundDouble (r * of_int w)"
  have p0: "0 \<le> p" unfolding p_def using r w by (intro roundDouble_nonneg) simp
  have "r * real_of_int w \<le> real_of_int w"
    using r w by (simp add: mult_left_le_one_le)
  then have "p \<le> roundDouble (real_of_int w)" unfolding p_def by (rule roundDouble_mono)
  then have pw: "p \<le> real_of_int w" using roundDouble_int [OF wr] by simp
  have rw: "\<bar>r * real_of_int w\<bar> \<le> 2 ^ 53"
  proof -
    have "0 \<le> r * real_of_int w" using r w by simp
    then show ?thesis using \<open>r * real_of_int w \<le> real_of_int w\<close> wr by linarith
  qed
  have mul: "jsMul (Fin r) (Fin (of_int w)) = Fin p"
    using toDouble_small [OF rw] by (simp add: jsMul_def p_def)
  define d where "d = roundDouble (p + of_int a)"
  have "roundDouble (real_of_int a) \<le> d" unfolding d_def using p0 by (intro roundDouble_mono) simp
  then have lo: "real_of_int a \<le> d" using roundDouble_int [OF ar] by simp
  have "p + real_of_int a \<le> real_of_int b" using pw by (simp add: w_def)
  then have "d \<le> roundDouble (real_of_int b)" unfolding d_def by (rule roundDouble_mono)
  then have hi: "d \<le> real_of_int b" using roundDouble_int [OF br] by simp
  have pa: "\<bar>p + real_of_int a\<bar> \<le> 2 ^ 53"
    using p0 \<open>p + real_of_int a \<le> real_of_int b\<close> ar br by linarith
  have add: "jsAdd (Fin p) (Fin (of_int a)) = Fin d"
    using toDouble_small [OF pa] by (simp add: jsAdd_def d_def)
  have "glitchDelay (Fin (of_int a)) (Fin (of_int b)) r = Fin d"
    by (simp add: glitchDelay_def sub mul add)
  then show ?thesis using lo hi by blast
qed

lemma delaysOk_schedule:
  "timers s = [] \<Longrightarrow> delaysOk (schedule mn mx s)"
  by (auto simp add: delaysOk_def drawn_def)

lemma drawNoise_timers [simp]: "timers (drawNoise e now s) = timers s"
  by (simp add: drawNoise_def Let_def split: prod.split)

lemma drawNoise_rand [simp]: "rand (drawNoise e now s) = rand s"
  by (simp add: drawNoise_def Let_def split: prod.split)

lemma stopGlitch_timers_subset: "delaysOk s \<Longrightarrow> delaysOk (stopGlitch s)"
  by (simp add: delaysOk_def stopGlitch_def Let_def list_all_iff split: option.split)

lemma delaysOk_step:
  assumes ok: "pendingOk s" and d: "delaysOk s"
  shows "delaysOk (step e s)"
proof (cases e)
  case (LoadScene ident)
  show ?thesis
  proof (cases "cameras s ident")
    case None
    then show ?thesis using d LoadScene by (simp add: loadScene_unknown delaysOk_def)
  next
    case (Some cam)
    have "rand (loadScene ident s) = rand s" using rand_step [of "LoadScene ident" s] by simp
    then show ?thesis
      by (auto simp add: LoadScene delaysOk_def loadScene_pending(1) [OF ok Some] drawn_def)
  qed
next
  case (TriggerGlitch mn mx)
  have "delaysOk (schedule mn mx (stopGlitch s))"
    by (intro delaysOk_schedule) (simp_all add: stopGlitch_clears [OF ok])
  then show ?thesis by (simp add: TriggerGlitch triggerGlitch_def)
next
  case StopGlitch
  then show ?thesis using d by (simp add: stopGlitch_timers_subset)
next
  case (StartLostSignalEffect w h)
  then show ?thesis using d by (simp add: delaysOk_def)
next
  case StopLostSignalEffect
  then show ?thesis using d by (simp add: delaysOk_def)
next
  case TogglePan
  then show ?thesis using d by (simp add: delaysOk_def)
next
  case (TimerFires n)
  show ?thesis
  proof (cases "find (\<lambda>x. tid x = n) (timers s)")
    case None
    then show ?thesis using d by (simp add: TimerFires timerFires_def)
  next
    case (Some x)
    from pendingOk_timers_cases [OF ok] Some
    obtain y where y: "timers s = [y]" by auto
    with Some have xy: "x = y" "tid y = n" by (auto split: if_splits)
    have "delaysOk (schedule (tmin x) (tmax x) (s\<lparr>timers := [], glitchShow := True\<rparr>))"
      by (intro delaysOk_schedule) simp_all
    then show ?thesis using Some y xy by (simp add: TimerFires timerFires_def bump_def)
  qed
next
  case (FrameFires n now)
  then show ?thesis using d by (simp add: frameFires_def delaysOk_def split: option.split)
qed

lemma delaysOk_run:
  "pendingOk s \<Longrightarrow> delaysOk s \<Longrightarrow> delaysOk (run evs s)"
  unfolding run_def
proof (induction evs arbitrary: s)
  case Nil
  then show ?case by simp
next
  case (Cons e evs)
  have "pendingOk (step e s)" using Cons.prems(1) by (rule pendingOk_step)
  moreover have "delaysOk (step e s)" using Cons.prems by (intro delaysOk_step)
  ultimately show ?case using Cons.IH by simp
qed

lemma rand_run [simp]: "rand (run evs s) = rand s"
  unfolding run_def by (induction evs arbitrary: s) simp_all

text \<open>Values of the rounding at the numbers of the examples.\<close>

lemma roundHalfEven_numeral [simp]: "roundHalfEven (numeral n) = numeral n"
  using roundHalfEven_int [of "numeral n"] by simp

lemma toDouble_numeral: "(numeral n :: real) \<le> 2 ^ 53 \<Longrightarrow> toDouble (numeral n) = Fin (numeral n)"
  using toDouble_nat [of "numeral n"] by simp

lemma toDouble_zero [simp]: "toDouble 0 = Fin 0"
  by (simp add: toDouble_def roundDouble_def)

lemma maxRandom_double: "roundDouble (1 - 1 / 2 ^ 53) = 1 - 1 / 2 ^ 53"
proof -
  have "roundDouble (1 - 1 / 2 ^ 53) = 2 powi (- 1 - 52) * of_int (2 ^ 53 - 1)"
  proof (rule roundDouble_eqI)
    show "roundHalfEven ((1 - 1 / 2 ^ 53) / 2 powi (- 1 - 52)) = 2 ^ 53 - 1"
      by (rule roundHalfEven_eqI) simp
  qed simp_all
  then show ?thesis by simp
qed

lemma maxDelay_mul: "roundDouble ((1 - 1 / 2 ^ 53) * 800) = 800 - 1 / 2 ^ 43"
proof -
  have "roundDouble ((1 - 1 / 2 ^ 53) * 800) = 2 powi (9 - 52) * of_int (800 * 2 ^ 43 - 1)"
  proof (rule roundDouble_eqI)
    show "roundHalfEven ((1 - 1 / 2 ^ 53) * 800 / 2 powi (9 - 52)) = 800 * 2 ^ 43 - 1"
      by (rule roundHalfEven_eqI) simp
  qed simp_all
  then show ?thesis by simp
qed

lemma maxDelay_add: "roundDouble (800 - 1 / 2 ^ 43 + 400) = 1200"
proof -
  have "roundDouble (800 - 1 / 2 ^ 43 + 400) = 2 powi (10 - 52) * of_int (1200 * 2 ^ 42)"
  proof (rule roundDouble_eqI)
    show "roundHalfEven ((800 - 1 / 2 ^ 43 + 400) / 2 powi (10 - 52)) = 1200 * 2 ^ 42"
      using roundHalfEven_tie [of "(800 - 1 / 2 ^ 43 + 400) / 2 powi (10 - 52)" "1200 * 2 ^ 42 - 1"]
      by simp
  qed simp_all
  then show ?thesis by simp
qed

lemma glitchDelay_max: "glitchDelay (Fin 400) (Fin 1200) (1 - 1 / 2 ^ 53) = Fin 1200"
proof -
  have s: "jsSub (Fin 1200) (Fin 400) = Fin 800"
    by (simp add: jsSub_def jsNeg_def jsAdd_def toDouble_numeral)
  have m: "jsMul (Fin (1 - 1 / 2 ^ 53)) (Fin 800) = Fin (800 - 1 / 2 ^ 43)"
    using toDouble_Fin [of "(1 - 1 / 2 ^ 53) * 800"] unfolding maxDelay_mul
    by (simp add: jsMul_def)
  have a: "jsAdd (Fin (800 - 1 / 2 ^ 43)) (Fin 400) = Fin 1200"
    using toDouble_Fin [of "800 - 1 / 2 ^ 43 + 400"] unfolding maxDelay_add
    by (simp add: jsAdd_def)
  show ?thesis unfolding glitchDelay_def s m a ..
qed

lemma glitchDelay_maxRandom: "glitchDelay (Fin 400) (Fin 1200) (maxRandom n) = Fin 1200"
  unfolding maxRandom_def by (rule glitchDelay_max)

lemma wideDelay_mul: "roundDouble ((1 - 1 / 2 ^ 52) * 1450) = 1450 - 1 / 2 ^ 42"
proof -
  have "roundDouble ((1 - 1 / 2 ^ 52) * 1450) = 2 powi (10 - 52) * of_int (1450 * 2 ^ 42 - 1)"
  proof (rule roundDouble_eqI)
    show "roundHalfEven ((1 - 1 / 2 ^ 52) * 1450 / 2 powi (10 - 52)) = 1450 * 2 ^ 42 - 1"
      by (rule roundHalfEven_eqI) simp
  qed simp_all
  then show ?thesis by simp
qed

lemma wideDelay_add: "roundDouble (1450 - 1 / 2 ^ 42 + 750) = 2200"
proof -
  have "roundDouble (1450 - 1 / 2 ^ 42 + 750) = 2 powi (11 - 52) * of_int (2200 * 2 ^ 41)"
  proof (rule roundDouble_eqI)
    show "roundHalfEven ((1450 - 1 / 2 ^ 42 + 750) / 2 powi (11 - 52)) = 2200 * 2 ^ 41"
      using roundHalfEven_tie [of "(1450 - 1 / 2 ^ 42 + 750) / 2 powi (11 - 52)" "2200 * 2 ^ 41 - 1"]
      by simp
  qed simp_all
  then show ?thesis by simp
qed

lemma glitchDelay_wide: "glitchDelay (Fin 750) (Fin 2200) (1 - 1 / 2 ^ 52) = Fin 2200"
proof -
  have s: "jsSub (Fin 2200) (Fin 750) = Fin 1450"
    by (simp add: jsSub_def jsNeg_def jsAdd_def toDouble_numeral)
  have m: "jsMul (Fin (1 - 1 / 2 ^ 52)) (Fin 1450) = Fin (1450 - 1 / 2 ^ 42)"
    using toDouble_Fin [of "(1 - 1 / 2 ^ 52) * 1450"] unfolding wideDelay_mul
    by (simp add: jsMul_def)
  have a: "jsAdd (Fin (1450 - 1 / 2 ^ 42)) (Fin 750) = Fin 2200"
    using toDouble_Fin [of "1450 - 1 / 2 ^ 42 + 750"] unfolding wideDelay_add
    by (simp add: jsAdd_def)
  show ?thesis unfolding glitchDelay_def s m a ..
qed

lemma glitchDelay_half: "glitchDelay (Fin 400) (Fin 1200) (1 / 2) = Fin 800"
  by (simp add: glitchDelay_def jsSub_def jsNeg_def jsAdd_def jsMul_def toDouble_numeral)

lemma glitchDelay_equal: "glitchDelay (Fin 500) (Fin 500) (1 / 2) = Fin 500"
  by (simp add: glitchDelay_def jsSub_def jsNeg_def jsAdd_def jsMul_def toDouble_numeral)

lemma maxState_simps [simp]:
  "cameras maxState ''cam-lab'' = Some camLab"
  "nextTimer maxState = 1" "rand maxState = maxRandom" "randIx maxState = 0"
  "pendingOk maxState"
  by (simp_all add: maxState_def initial_def demoCameras_def pendingOk_def handleOk_def)

section \<open>The registry built from a sheet\<close>

text \<open>No own key of \<^verbatim>\<open>sections\<close> is a name of \<^verbatim>\<open>Object.prototype\<close>: the loop never
  makes one.\<close>

lemma visited_Cons: "visited (e # es) = (if throwing e then [e] else e # visited es)"
  by (simp add: visited_def)

lemma visited_Nil [simp]: "visited [] = []"
  by (simp add: visited_def)

lemma section_name_mkCamera [simp]:
  "section_name (mkCamera cid e) = orStr (e ''section'') ''UNKNOWN''"
  by (simp add: mkCamera_def)

lemma groupBySection_cases:
  assumes "\<forall>n \<in> set protoNames. secs n = None"
  shows "(section_name cam \<in> set protoNames \<longrightarrow> groupBySection cam secs = Inl TypeError) \<and>
         (section_name cam \<notin> set protoNames \<longrightarrow>
            (\<exists>secs1. groupBySection cam secs = Inr secs1 \<and> (\<forall>n \<in> set protoNames. secs1 n = None)))"
  using assms by (auto simp add: groupBySection_def Let_def split: option.split)

lemma storeCamera_result:
  assumes ok: "\<forall>n \<in> set protoNames. regSections reg n = None"
  shows "snd (storeCamera e reg) = (if throwing e then Some TypeError else None) \<and>
         regCameras (fst (storeCamera e reg)) cid =
           (if orStr (e ''camid'') [] = cid \<and> cid \<noteq> [] \<and> cid \<noteq> ''__proto__''
            then Some (mkCamera cid e) else regCameras reg cid) \<and>
         (\<forall>n \<in> set protoNames. regSections (fst (storeCamera e reg)) n = None)"
proof (cases "orStr (e ''camid'') [] = []")
  case True
  then show ?thesis using ok by (auto simp add: storeCamera_def throwing_def)
next
  case False
  define c where "c = orStr (e ''camid'') []"
  define reg1 where "reg1 = (if c = ''__proto__'' then reg\<lparr>regProto := Some (mkCamera c e)\<rparr>
      else reg\<lparr>regCameras := (regCameras reg)(c \<mapsto> mkCamera c e)\<rparr>)"
  have c: "c \<noteq> []" using False by (simp add: c_def)
  have s1: "regSections reg1 = regSections reg" by (simp add: reg1_def)
  have c1: "regCameras reg1 cid =
      (if c = cid \<and> cid \<noteq> [] \<and> cid \<noteq> ''__proto__'' then Some (mkCamera cid e)
       else regCameras reg cid)"
    using c by (auto simp add: reg1_def)
  have st: "storeCamera e reg =
      (case groupBySection (mkCamera c e) (regSections reg1) of
         Inl err \<Rightarrow> (reg1, Some err)
       | Inr secs \<Rightarrow> (reg1\<lparr>regSections := secs\<rparr>, None))"
    using c unfolding storeCamera_def c_def [symmetric] Let_def reg1_def by simp
  have ok1: "\<forall>n \<in> set protoNames. regSections reg1 n = None" using ok by (simp add: s1)
  note g = groupBySection_cases [OF ok1, of "mkCamera c e"]
  have th: "throwing e = (section_name (mkCamera c e) \<in> set protoNames)"
    using c by (simp add: throwing_def c_def)
  show ?thesis
  proof (cases "throwing e")
    case True
    then have "groupBySection (mkCamera c e) (regSections reg1) = Inl TypeError"
      using g th by blast
    then show ?thesis using True ok1 c1 by (simp add: st c_def)
  next
    case False
    then obtain secs1 where
      "groupBySection (mkCamera c e) (regSections reg1) = Inr secs1"
      "\<forall>n \<in> set protoNames. secs1 n = None"
      using g th by blast
    then show ?thesis using False c1 by (simp add: st c_def)
  qed
qed

lemma forEachEntry_result:
  assumes "\<forall>n \<in> set protoNames. regSections reg n = None"
  shows "snd (forEachEntry es reg) = (if list_ex throwing es then Some TypeError else None) \<and>
         regCameras (fst (forEachEntry es reg)) cid =
           (if cid \<noteq> [] \<and> cid \<noteq> ''__proto__'' \<and>
               filter (\<lambda>e. orStr (e ''camid'') [] = cid) (visited es) \<noteq> []
            then Some (mkCamera cid (last (filter (\<lambda>e. orStr (e ''camid'') [] = cid) (visited es))))
            else regCameras reg cid)"
  using assms
proof (induction es arbitrary: reg)
  case Nil
  then show ?case by simp
next
  case (Cons e es)
  note r = storeCamera_result [OF Cons.prems, of e cid]
  obtain reg1 err where p: "storeCamera e reg = (reg1, err)" by (cases "storeCamera e reg")
  have err: "err = (if throwing e then Some TypeError else None)" using r p by simp
  have cams: "regCameras reg1 cid =
      (if orStr (e ''camid'') [] = cid \<and> cid \<noteq> [] \<and> cid \<noteq> ''__proto__''
       then Some (mkCamera cid e) else regCameras reg cid)"
    using r p by simp
  have ok1: "\<forall>n \<in> set protoNames. regSections reg1 n = None" using r p by simp
  show ?case
  proof (cases "throwing e")
    case True
    then have "forEachEntry (e # es) reg = (reg1, Some TypeError)" using p err by simp
    then show ?thesis using True cams by (auto simp add: visited_Cons)
  next
    case False
    then have f: "forEachEntry (e # es) reg = forEachEntry es reg1" using p err by simp
    show ?thesis
      unfolding f using Cons.IH [OF ok1] False cams by (auto simp add: visited_Cons)
  qed
qed

lemma loadCameras_lookup:
  "regCameras (fst (loadCameras rows)) cid =
     (if cid \<noteq> [] \<and> cid \<noteq> ''__proto__'' \<and> rowsOf rows cid \<noteq> []
      then Some (mkCamera cid (last (rowsOf rows cid))) else None)"
  using forEachEntry_result [of emptyRegistry "parseSheetData rows" cid]
  by (simp add: loadCameras_def rowsOf_def emptyRegistry_def)

lemma loadCameras_error:
  "snd (loadCameras rows) =
     (if list_ex throwing (parseSheetData rows) then Some TypeError else None)"
  using forEachEntry_result [of emptyRegistry "parseSheetData rows"]
  by (simp add: loadCameras_def emptyRegistry_def)

text \<open>The two parsers on decimal numerals and on texts that start no number.\<close>

declare decimal.simps [simp del]

lemma digitChar_mem: "n < 10 \<Longrightarrow> digitChar n \<in> set ''0123456789''"
  using nth_mem [of n "''0123456789''"] by (simp add: digitChar_def)

lemma digit_table: "list_all (\<lambda>n. digitValue (digitChar n) = Some n) [0..<10]"
  by (simp add: upt_rec digitChar_def digitValue_def)

lemma digitValue_digitChar: "n < 10 \<Longrightarrow> digitValue (digitChar n) = Some n"
  using digit_table by (simp add: list_all_iff)

lemma decimal_digits: "set (decimal n) \<subseteq> set ''0123456789''"
proof (induction n rule: decimal.induct)
  case (1 n)
  show ?case
  proof (cases "n < 10")
    case True
    then show ?thesis using digitChar_mem [of n] by (subst decimal.simps) simp
  next
    case False
    have "n mod 10 < 10" by simp
    then have "digitChar (n mod 10) \<in> set ''0123456789''" by (rule digitChar_mem)
    then show ?thesis using False 1 by (subst decimal.simps) simp
  qed
qed

lemma decimal_nonempty: "decimal n \<noteq> []"
  by (subst decimal.simps) simp

lemma digitsValue_snoc:
  "digitsValue R (Z @ [c]) = digitsValue R Z * R + (case digitValue c of None \<Rightarrow> 0 | Some v \<Rightarrow> v)"
  by (simp add: digitsValue_def)

lemma digitsValue_decimal: "digitsValue 10 (decimal n) = n"
proof (induction n rule: decimal.induct)
  case (1 n)
  show ?case
  proof (cases "n < 10")
    case True
    then show ?thesis
      by (subst decimal.simps) (simp add: digitsValue_def digitValue_digitChar)
  next
    case False
    have "digitsValue 10 (decimal n) = digitsValue 10 (decimal (n div 10) @ [digitChar (n mod 10)])"
      using False by (subst decimal.simps) simp
    also have "\<dots> = (n div 10) * 10 + n mod 10"
      using 1 [OF False] by (simp add: digitsValue_snoc digitValue_digitChar)
    finally show ?thesis by simp
  qed
qed

lemma plain_digit_conj:
  assumes "c \<in> set ''0123456789''"
  shows "\<not> isWhiteSpace c \<and> c \<noteq> CHR ''-'' \<and> c \<noteq> CHR ''+'' \<and> c \<noteq> CHR ''x'' \<and> c \<noteq> CHR ''X'' \<and>
    c \<noteq> CHR ''I'' \<and> c \<noteq> CHR ''.'' \<and> c \<noteq> CHR ''e'' \<and> c \<noteq> CHR ''E'' \<and> isRadixDigit 10 c"
proof -
  have "c = CHR ''0'' \<or> c = CHR ''1'' \<or> c = CHR ''2'' \<or> c = CHR ''3'' \<or> c = CHR ''4'' \<or>
      c = CHR ''5'' \<or> c = CHR ''6'' \<or> c = CHR ''7'' \<or> c = CHR ''8'' \<or> c = CHR ''9''"
    using assms by simp
  then show ?thesis
    by (elim disjE) (simp_all add: isWhiteSpace_def isRadixDigit_def digitValue_def)
qed

lemma plain_digit:
  assumes "c \<in> set ''0123456789''"
  shows "\<not> isWhiteSpace c" "c \<noteq> CHR ''-''" "c \<noteq> CHR ''+''" "c \<noteq> CHR ''x''" "c \<noteq> CHR ''X''"
    "c \<noteq> CHR ''I''" "c \<noteq> CHR ''.''" "c \<noteq> CHR ''e''" "c \<noteq> CHR ''E''" "isRadixDigit 10 c"
  using plain_digit_conj [OF assms] by blast+

lemma takeWhile_digits:
  "set Z \<subseteq> set ''0123456789'' \<Longrightarrow> takeWhile (isRadixDigit 10) Z = Z"
  using plain_digit(10) by (intro takeWhile_eq_all_conv [THEN iffD2]) blast

lemma parseInt_decimal: "parseInt (decimal n) = toDouble (real n)"
proof -
  obtain c cs where s: "decimal n = c # cs"
    using decimal_nonempty [of n] by (cases "decimal n") auto
  have all: "set (c # cs) \<subseteq> set ''0123456789''" using decimal_digits [of n] s by simp
  then have c: "c \<in> set ''0123456789''" by simp
  note pc = plain_digit [OF c]
  have t: "trimStart (c # cs) = c # cs" using pc(1) by (simp add: trimStart_def)
  have hex: "take 2 (c # cs) \<noteq> ''0x''" "take 2 (c # cs) \<noteq> ''0X''"
  proof -
    show "take 2 (c # cs) \<noteq> ''0x''"
    proof (cases cs)
      case Nil
      then show ?thesis by simp
    next
      case (Cons c2 cs2)
      then have "c2 \<in> set ''0123456789''" using all by simp
      then show ?thesis using plain_digit(4) Cons by (auto simp add: numeral_2_eq_2)
    qed
    show "take 2 (c # cs) \<noteq> ''0X''"
    proof (cases cs)
      case Nil
      then show ?thesis by simp
    next
      case (Cons c2 cs2)
      then have "c2 \<in> set ''0123456789''" using all by simp
      then show ?thesis using plain_digit(5) Cons by (auto simp add: numeral_2_eq_2)
    qed
  qed
  have tw: "takeWhile (isRadixDigit 10) (c # cs) = c # cs" using all by (rule takeWhile_digits)
  have dv: "digitsValue 10 (c # cs) = n" using digitsValue_decimal [of n] s by simp
  have sg: "take 1 (c # cs) \<noteq> ''-''" "take 1 (c # cs) \<noteq> ''+''" using pc(2,3) by simp_all
  show ?thesis
    unfolding parseInt_def s t Let_def
    by (simp only: sg hex tw dv if_False simp_thms list.simps mult_1 of_nat_1)
qed


lemma parseFloat_decimal: "parseFloat (decimal n) = toDouble (real n)"
proof -
  obtain c cs where s: "decimal n = c # cs"
    using decimal_nonempty [of n] by (cases "decimal n") auto
  have all: "set (c # cs) \<subseteq> set ''0123456789''" using decimal_digits [of n] s by simp
  then have c: "c \<in> set ''0123456789''" by simp
  note pc = plain_digit [OF c]
  have t: "trimStart (c # cs) = c # cs" using pc(1) by (simp add: trimStart_def)
  have sg: "take 1 (c # cs) \<noteq> ''-''" "take 1 (c # cs) \<noteq> ''+''" using pc(2,3) by simp_all
  have inf: "take 8 (c # cs) \<noteq> ''Infinity''" using pc(6) by (simp add: take_Cons')
  have tw: "takeWhile (isRadixDigit 10) (c # cs) = c # cs" using all by (rule takeWhile_digits)
  have dv: "digitsValue 10 (c # cs) = n" using digitsValue_decimal [of n] s by simp
  have ex: "exponentPart [] = 0" by (simp add: exponentPart_def)
  have d0: "digitsValue 10 [] = 0" by (simp add: digitsValue_def)
  show ?thesis
    unfolding parseFloat_def s t Let_def
    by (simp only: sg inf tw dv if_False simp_thms) (simp add: ex d0)
qed

lemma not_digit:
  assumes "c \<notin> set ''+-.0123456789I''"
  shows "\<not> isRadixDigit 10 c"
  using assms by (simp add: isRadixDigit_def digitValue_def)

lemma parseFloat_noNumber: "noNumber cell \<Longrightarrow> parseFloat cell = NaN"
proof (cases "trimStart cell")
  case Nil
  then show ?thesis by (simp add: parseFloat_def Let_def)
next
  case (Cons c cs)
  assume "noNumber cell"
  then have c: "c \<notin> set ''+-.0123456789I''" using Cons by (simp add: noNumber_def)
  then have nd: "\<not> isRadixDigit 10 c" by (rule not_digit)
  have sg: "take 1 (c # cs) \<noteq> ''-''" "take 1 (c # cs) \<noteq> ''+''" "take 1 (c # cs) \<noteq> ''.''"
    using c by simp_all
  have inf: "take 8 (c # cs) \<noteq> ''Infinity''" using c by (simp add: take_Cons')
  have tw: "takeWhile (isRadixDigit 10) (c # cs) = []" using nd by simp
  show ?thesis
    unfolding parseFloat_def Cons Let_def
    by (simp only: sg inf tw if_False simp_thms list.size drop_0) simp
qed

lemma parseInt_noNumber: "noNumber cell \<Longrightarrow> parseInt cell = NaN"
proof (cases "trimStart cell")
  case Nil
  then show ?thesis by (simp add: parseInt_def Let_def)
next
  case (Cons c cs)
  assume "noNumber cell"
  then have c: "c \<notin> set ''+-.0123456789I''" using Cons by (simp add: noNumber_def)
  then have nd: "\<not> isRadixDigit 10 c" by (rule not_digit)
  have sg: "take 1 (c # cs) \<noteq> ''-''" "take 1 (c # cs) \<noteq> ''+''"
    using c by simp_all
  have hex: "take 2 (c # cs) \<noteq> ''0x''" "take 2 (c # cs) \<noteq> ''0X''"
    using c by (simp_all add: take_Cons')
  have tw: "takeWhile (isRadixDigit 10) (c # cs) = []" using nd by simp
  show ?thesis
    unfolding parseInt_def Cons Let_def
    by (simp only: sg hex tw if_False if_True simp_thms)
qed

lemma roundDouble_7_2: "roundDouble (7 / 2) = 7 / 2"
proof -
  have "roundDouble (7 / 2) = 2 powi (1 - 52) * of_int (7 * 2 ^ 50)"
  proof (rule roundDouble_eqI)
    show "roundHalfEven (7 / 2 / 2 powi (1 - 52)) = 7 * 2 ^ 50"
      by (rule roundHalfEven_eqI) simp
  qed simp_all
  then show ?thesis by simp
qed

lemma toDouble_7_2: "toDouble (7 / 2) = Fin (7 / 2)"
  using toDouble_Fin [of "7 / 2"] unfolding roundDouble_7_2 by simp

lemmas parse_defs = parseFloat_def parseInt_def trimStart_def isWhiteSpace_def isRadixDigit_def
  digitValue_def digitsValue_def exponentPart_def

lemma parse_examples:
  "parseFloat ''3.5'' = Fin (7 / 2)" "parseInt ''250'' = Fin 250" "parseInt ''abc'' = NaN"
  "parseFloat ''0'' = Fin 0" "parseInt ''0'' = Fin 0"
  by (simp_all add: parse_defs toDouble_numeral toDouble_7_2)


lemma roundDouble_subnormal:
  assumes "0 < x" "x < 2 powi (- 1022)"
  shows "roundDouble x = 2 powi (- 1074) * of_int (roundHalfEven (x / 2 powi (- 1074)))"
proof -
  have "binExp x < - 1022"
  proof (rule ccontr)
    assume "\<not> binExp x < - 1022"
    then have "(2::real) powi (- 1022) \<le> 2 powi (binExp x)"
      by (intro power_int_increasing) simp_all
    then show False using binExp_bounds [OF assms(1)] assms(2) by linarith
  qed
  then have "max (binExp \<bar>x\<bar>) (- 1022) - 52 = - 1074" using assms(1) by simp
  then have "ulp x = 2 powi (- 1074)" unfolding ulp_def by (simp only:)
  then show ?thesis using assms(1) unfolding roundDouble_def by (simp only: if_False less_imp_neq [THEN not_sym])
qed

lemma underflow_example: "toDouble (1 / 10 ^ 400) = Fin 0"
proof -
  have "roundDouble (1 / 10 ^ 400) = 2 powi (- 1074) * of_int 0"
  proof (subst roundDouble_subnormal)
    show "2 powi (- 1074) * real_of_int (roundHalfEven (1 / 10 ^ 400 / 2 powi (- 1074))) =
        2 powi (- 1074) * real_of_int 0"
      using roundHalfEven_eqI [of "1 / 10 ^ 400 / 2 powi (- 1074)" 0] by simp
  qed simp_all
  then have "roundDouble (1 / 10 ^ 400) = 0" by simp
  then show ?thesis by (simp add: toDouble_def)
qed

lemma overflow_example: "toDouble (10 ^ 400) = PosInfinity"
proof -
  have "roundDouble (2 ^ 1024) = 2 powi (1024 - 52) * of_int (2 ^ 52)"
  proof (rule roundDouble_eqI)
    show "roundHalfEven (2 ^ 1024 / 2 powi (1024 - 52)) = 2 ^ 52"
      by (rule roundHalfEven_eqI) simp
  qed simp_all
  then have p: "roundDouble (2 ^ 1024) = 2 ^ 1024" by simp
  have "roundDouble (2 ^ 1024) \<le> roundDouble (10 ^ 400)"
    by (rule roundDouble_mono) simp
  then have "2 ^ 1024 \<le> roundDouble (10 ^ 400)" unfolding p .
  then show ?thesis by (simp add: toDouble_def Let_def)
qed

lemma above_2_53_example: "toDouble 9007199254740993 = Fin 9007199254740992"
proof -
  have "roundDouble 9007199254740993 = 2 powi (53 - 52) * of_int 4503599627370496"
  proof (rule roundDouble_eqI)
    show "roundHalfEven (9007199254740993 / 2 powi (53 - 52)) = 4503599627370496"
      using roundHalfEven_tie [of "9007199254740993 / 2 powi (53 - 52)" 4503599627370496]
      by simp
  qed simp_all
  then have "roundDouble 9007199254740993 = 9007199254740992" by simp
  then show ?thesis using toDouble_Fin [of 9007199254740993] by simp
qed

lemma parse_underflow: "parseFloat ''1e-400'' = Fin 0"
  using underflow_example by (simp add: parse_defs)

lemma parse_overflow: "parseFloat ''1e400'' = PosInfinity"
  using overflow_example by (simp add: parse_defs)

lemma parse_rounding_examples:
  "parseInt ''9007199254740993'' = Fin 9007199254740992"
  "parseInt [CHR 0xA0, CHR ''7''] = Fin 7" "parseFloat [CHR 0xA0, CHR ''7''] = Fin 7"
  "parseFloat ''Infinity'' = PosInfinity" "parseInt ''0x1F'' = Fin 31"
  by (simp_all add: parse_defs toDouble_numeral above_2_53_example)

lemmas sheet_defs = parseSheetData_def rowObject_def cellOr_def orStr_def
  toLowerCase_def lowerChar_def upperLetters_def lowerLetters_def trim_def isWhiteSpace_def
  upt_rec

lemma plainRows_entry:
  "rowsOf plainRows ''cam-plain'' =
     [[''camid'' \<mapsto> ''cam-plain'', ''status'' \<mapsto> ''flicker'', ''panduration'' \<mapsto> ''3.5'',
       ''glitchminms'' \<mapsto> ''250'', ''glitchmaxms'' \<mapsto> ''abc'']]"
  by (simp add: rowsOf_def plainRows_def visited_def throwing_def protoNames_def sheet_defs)

lemma zeroRows_entry:
  "rowsOf zeroRows ''cam-zero'' =
     [[''camid'' \<mapsto> ''cam-zero'', ''panduration'' \<mapsto> ''0'',
       ''glitchminms'' \<mapsto> ''0'', ''glitchmaxms'' \<mapsto> ''0'']]"
  by (simp add: rowsOf_def zeroRows_def visited_def throwing_def protoNames_def sheet_defs)

lemma abortRows_entries:
  "rowsOf abortRows ''a'' = [[''camid'' \<mapsto> ''a'', ''section'' \<mapsto> ''SECTION A'', ''glitchminms'' \<mapsto> ''100'']]"
  "rowsOf abortRows ''b'' = []"
  "list_ex throwing (parseSheetData abortRows)"
  by (simp_all add: rowsOf_def abortRows_def visited_def throwing_def protoNames_def sheet_defs)

lemma decimal_250: "decimal 250 = ''250''"
  by (simp add: decimal.simps digitChar_def)

section \<open>The passes of the noise frame\<close>

declare baseStatic.simps [simp del] bandRow.simps [simp del] bandLoop.simps [simp del]
  blendLoop.simps [simp del]

lemma ToUint8Clamp_between:
  assumes "real a \<le> x" "x \<le> real b" "b \<le> 255"
  shows "a \<le> ToUint8Clamp x \<and> ToUint8Clamp x \<le> b"
proof -
  have "0 \<le> real a" by simp
  then have x0: "0 \<le> x" using assms(1) by linarith
  have x255: "x \<le> 255" using assms(2,3) by linarith
  have cl: "min (max x 0) 255 = x" using x0 x255 by simp
  have fa: "int a \<le> \<lfloor>x\<rfloor>" using assms(1) by (simp add: le_floor_iff)
  have fb: "\<lfloor>x\<rfloor> \<le> int b" using assms(2) by (simp add: floor_le_iff)
  have fb': "x > of_int \<lfloor>x\<rfloor> \<Longrightarrow> \<lfloor>x\<rfloor> + 1 \<le> int b"
  proof -
    assume "x > of_int \<lfloor>x\<rfloor>"
    then have "of_int \<lfloor>x\<rfloor> < real b" using assms(2) by linarith
    then have "\<lfloor>x\<rfloor> < int b" by linarith
    then show ?thesis by simp
  qed
  show ?thesis
    unfolding ToUint8Clamp_def Let_def cl
    using fa fb fb' by (auto simp: nat_le_iff le_nat_iff)
qed

lemma ToUint8Clamp_near:
  assumes "0 \<le> x" "x \<le> 255"
  shows "\<bar>real (ToUint8Clamp x) - x\<bar> \<le> 1 / 2"
proof -
  have cl: "min (max x 0) 255 = x" using assms by simp
  have f0: "0 \<le> \<lfloor>x\<rfloor>" using assms(1) by simp
  have r1: "real (nat \<lfloor>x\<rfloor>) = of_int \<lfloor>x\<rfloor>" using f0 by simp
  have r2: "real (nat (\<lfloor>x\<rfloor> + 1)) = of_int \<lfloor>x\<rfloor> + 1" using f0 by simp
  have fl: "of_int \<lfloor>x\<rfloor> \<le> x" "x < of_int \<lfloor>x\<rfloor> + 1" by linarith+
  show ?thesis
    unfolding ToUint8Clamp_def Let_def cl
    using fl by (auto simp: r1 r2)
qed

lemma mod4_shift: "i mod 4 = 0 \<Longrightarrow> (i + k) mod 4 = k mod (4::nat)"
  by (metis add_0 mod_add_left_eq)

lemma baseStatic_step:
  "i < length d \<Longrightarrow>
   baseStatic rnd c i d =
     baseStatic rnd (Suc c) (i + 4)
       (d[i + 2 := ToUint8Clamp (staticBase (rnd c)), i + 1 := ToUint8Clamp (staticBase (rnd c)),
          i := ToUint8Clamp (staticBase (rnd c)), i + 3 := 255])"
  by (subst baseStatic.simps) (simp add: Let_def)

lemma baseStatic_stop: "\<not> i < length d \<Longrightarrow> baseStatic rnd c i d = (d, c)"
  by (subst baseStatic.simps) simp

lemma length_baseStatic [simp]: "length (fst (baseStatic rnd c i d)) = length d"
proof (induction rnd c i d rule: baseStatic.induct)
  case (1 rnd c i d)
  show ?case
  proof (cases "i < length d")
    case True
    then show ?thesis using 1 by (simp add: baseStatic_step)
  next
    case False
    then show ?thesis by (simp add: baseStatic_stop)
  qed
qed

lemma baseStatic_nth:
  "i mod 4 = 0 \<Longrightarrow> j < length d \<Longrightarrow>
   fst (baseStatic rnd c i d) ! j =
     (if j < i then d ! j
      else if j mod 4 = 3 then 255
      else ToUint8Clamp (staticBase (rnd (c + (j - i) div 4))))"
proof (induction rnd c i d arbitrary: j rule: baseStatic.induct)
  case (1 rnd c i d)
  show ?case
  proof (cases "i < length d")
    case False
    then show ?thesis using "1.prems" by (simp add: baseStatic_stop)
  next
    case True
    let ?b = "ToUint8Clamp (staticBase (rnd c))"
    let ?d = "d[i + 2 := ?b, i + 1 := ?b, i := ?b, i + 3 := 255]"
    have step: "fst (baseStatic rnd c i d) = fst (baseStatic rnd (Suc c) (i + 4) ?d)"
      using True by (simp add: baseStatic_step)
    have m: "(i + 4) mod 4 = 0" using "1.prems"(1) by simp
    have j: "j < length ?d" using "1.prems"(2) by simp
    note ih = "1.IH" [OF True refl m j]
    have m0: "i mod 4 \<noteq> 3" using "1.prems"(1) by simp
    have m1: "(i + 1) mod 4 \<noteq> 3" using mod4_shift [OF "1.prems"(1), of 1] by simp
    have m2: "(i + 2) mod 4 \<noteq> 3" using mod4_shift [OF "1.prems"(1), of 2] by simp
    have m3: "(i + 3) mod 4 = 3" using mod4_shift [OF "1.prems"(1), of 3] by simp
    consider "j < i" | "j = i" | "j = i + 1" | "j = i + 2" | "j = i + 3" | "i + 4 \<le> j"
      by linarith
    then show ?thesis
    proof cases
      case 1
      then show ?thesis unfolding step ih using "1.prems" by simp
    next
      case 2
      then show ?thesis unfolding step ih using m0 "1.prems" by simp
    next
      case 3
      then show ?thesis unfolding step ih using m1 "1.prems" by simp
    next
      case 4
      then show ?thesis unfolding step ih using m2 "1.prems" by simp
    next
      case 5
      then show ?thesis unfolding step ih using m3 "1.prems" by simp
    next
      case 6
      then obtain k where k: "j = i + 4 + k" using le_Suc_ex by blast
      have "(j - i) div 4 = Suc ((j - (i + 4)) div 4)" unfolding k by simp
      then show ?thesis unfolding step ih using 6 by simp
    qed
  qed
qed

lemma newNoiseEnv_demo [simp]:
  "smallW (newNoiseEnv 800 600) = 224" "smallH (newNoiseEnv 800 600) = 168"
  "length (data (newNoiseEnv 800 600)) = 150528" "prev (newNoiseEnv 800 600) = None"
  by (simp_all add: newNoiseEnv_def Let_def)


text \<open>The grey level of the static in doubles: between 100 and 170, both reached.\<close>

lemma roundDouble_numeral:
  "(numeral n :: real) \<le> 2 ^ 53 \<Longrightarrow> roundDouble (numeral n) = numeral n"
  using roundDouble_nat [of "numeral n"] by simp

lemma staticBase_bounds:
  assumes "0 \<le> r" "r < 1"
  shows "100 \<le> staticBase r \<and> staticBase r \<le> 170"
proof -
  define p where "p = roundDouble (r * 70)"
  have "0 \<le> r * 70" using assms by simp
  then have p0: "0 \<le> p" unfolding p_def by (rule roundDouble_nonneg)
  have "r * 70 \<le> 70" using assms by simp
  then have "p \<le> roundDouble 70" unfolding p_def by (rule roundDouble_mono)
  then have p70: "p \<le> 70" by (simp add: roundDouble_numeral)
  have "roundDouble 100 \<le> roundDouble (100 + p)" using p0 by (intro roundDouble_mono) simp
  then have lo: "100 \<le> roundDouble (100 + p)" by (simp add: roundDouble_numeral)
  have "roundDouble (100 + p) \<le> roundDouble 170" using p70 by (intro roundDouble_mono) simp
  then have hi: "roundDouble (100 + p) \<le> 170" by (simp add: roundDouble_numeral)
  show ?thesis using lo hi by (simp add: staticBase_def p_def)
qed

lemma staticBase_half: "staticBase (1 / 2) = 135"
  by (simp add: staticBase_def roundDouble_numeral)

lemma maxBase_mul: "roundDouble ((1 - 1 / 2 ^ 53) * 70) = 70 - 1 / 2 ^ 46"
proof -
  have "roundDouble ((1 - 1 / 2 ^ 53) * 70) = 2 powi (6 - 52) * of_int (70 * 2 ^ 46 - 1)"
  proof (rule roundDouble_eqI)
    show "roundHalfEven ((1 - 1 / 2 ^ 53) * 70 / 2 powi (6 - 52)) = 70 * 2 ^ 46 - 1"
      by (rule roundHalfEven_eqI) simp
  qed simp_all
  then show ?thesis by simp
qed

lemma maxBase_add: "roundDouble (100 + (70 - 1 / 2 ^ 46)) = 170"
proof -
  have "roundDouble (100 + (70 - 1 / 2 ^ 46)) = 2 powi (7 - 52) * of_int (170 * 2 ^ 45)"
  proof (rule roundDouble_eqI)
    show "roundHalfEven ((100 + (70 - 1 / 2 ^ 46)) / 2 powi (7 - 52)) = 170 * 2 ^ 45"
      using roundHalfEven_tie [of "(100 + (70 - 1 / 2 ^ 46)) / 2 powi (7 - 52)" "170 * 2 ^ 45 - 1"]
      by simp
  qed simp_all
  then show ?thesis by simp
qed

lemma staticBase_maxRandom: "staticBase (maxRandom n) = 170"
  unfolding staticBase_def maxRandom_def maxBase_mul maxBase_add ..

text \<open>A result of \<^verbatim>\<open>Math.random()\<close> for which the rounding of the sum decides the
  byte: the exact sum lies below \<open>101.5\<close>, the double is \<open>101.5\<close>.\<close>

lemma tieBase_mul:
  "roundDouble (96505706300796 / 2 ^ 52 * 70) = 6755399441055720 / 2 ^ 52"
proof -
  have "roundDouble (96505706300796 / 2 ^ 52 * 70) = 2 powi (0 - 52) * of_int 6755399441055720"
  proof (rule roundDouble_eqI)
    show "roundHalfEven (96505706300796 / 2 ^ 52 * 70 / 2 powi (0 - 52)) = 6755399441055720"
      by (rule roundHalfEven_eqI) simp
  qed simp_all
  then show ?thesis by simp
qed

lemma tieBase_add: "roundDouble (100 + 6755399441055720 / 2 ^ 52) = 203 / 2"
proof -
  have "roundDouble (100 + 6755399441055720 / 2 ^ 52) = 2 powi (6 - 52) * of_int 7142427534032896"
  proof (rule roundDouble_eqI)
    show "roundHalfEven ((100 + 6755399441055720 / 2 ^ 52) / 2 powi (6 - 52)) = 7142427534032896"
      by (rule roundHalfEven_eqI) simp
  qed simp_all
  then show ?thesis by simp
qed

lemma staticBase_tieRandom: "staticBase (tieRandom n) = 203 / 2"
  unfolding staticBase_def tieRandom_def tieBase_mul tieBase_add ..

section \<open>The luminance band\<close>

lemma pixel_bytes: "(j div 4 = p \<and> j mod 4 < 3) = (j = 4 * p \<or> j = 4 * p + 1 \<or> j = 4 * p + 2)"
  for j p :: nat
  by presburger

lemma bump3_nth:
  "j < length d \<Longrightarrow>
   (d[4 * p := min 255 (d ! (4 * p) + 10), 4 * p + 1 := min 255 (d ! (4 * p + 1) + 10),
      4 * p + 2 := min 255 (d ! (4 * p + 2) + 10)]) ! j =
   (if j div 4 = p \<and> j mod 4 < 3 then min 255 (d ! j + 10) else d ! j)"
  unfolding pixel_bytes by (auto simp add: nth_list_update)

lemma bandRow_step:
  "x < sw \<Longrightarrow>
   bandRow sw y x d =
     bandRow sw y (x + 1)
       (d[4 * (y * sw + x) := min 255 (d ! (4 * (y * sw + x)) + 10),
          4 * (y * sw + x) + 1 := min 255 (d ! (4 * (y * sw + x) + 1) + 10),
          4 * (y * sw + x) + 2 := min 255 (d ! (4 * (y * sw + x) + 2) + 10)])"
  by (subst bandRow.simps) (simp add: Let_def mult.commute)

lemma bandRow_stop: "\<not> x < sw \<Longrightarrow> bandRow sw y x d = d"
  by (subst bandRow.simps) simp

lemma length_bandRow [simp]: "length (bandRow sw y x d) = length d"
proof (induction sw y x d rule: bandRow.induct)
  case (1 sw y x d)
  show ?case
  proof (cases "x < sw")
    case True
    then show ?thesis using 1 [OF True refl refl refl refl] by (simp add: bandRow_step mult.commute)
  next
    case False
    then show ?thesis by (simp add: bandRow_stop)
  qed
qed


lemma bandRow_nth:
  "j < length d \<Longrightarrow>
   bandRow sw y x d ! j =
     (if y * sw + x \<le> j div 4 \<and> j div 4 < y * sw + sw \<and> j mod 4 < 3
      then min 255 (d ! j + 10) else d ! j)"
proof (induction sw y x d arbitrary: j rule: bandRow.induct)
  case (1 sw y x d)
  show ?case
  proof (cases "x < sw")
    case False
    then show ?thesis by (simp add: bandRow_stop)
  next
    case True
    let ?p = "y * sw + x"
    let ?d = "d[4 * ?p := min 255 (d ! (4 * ?p) + 10),
                4 * ?p + 1 := min 255 (d ! (4 * ?p + 1) + 10),
                4 * ?p + 2 := min 255 (d ! (4 * ?p + 2) + 10)]"
    have step: "bandRow sw y x d = bandRow sw y (x + 1) ?d"
      using True by (rule bandRow_step)
    have ih: "bandRow sw y (x + 1) ?d ! j =
        (if y * sw + (x + 1) \<le> j div 4 \<and> j div 4 < y * sw + sw \<and> j mod 4 < 3
         then min 255 (?d ! j + 10) else ?d ! j)"
      using "1.IH" [OF True refl refl refl refl, of j] "1.prems"
      by (simp add: mult.commute)
    have b: "?d ! j = (if j div 4 = ?p \<and> j mod 4 < 3 then min 255 (d ! j + 10) else d ! j)"
      using "1.prems" by (rule bump3_nth)
    show ?thesis
    proof (cases "j div 4 = ?p")
      case True
      then show ?thesis unfolding step ih b using \<open>x < sw\<close> by simp
    next
      case False
      then have "(y * sw + (x + 1) \<le> j div 4) = (y * sw + x \<le> j div 4)" by linarith
      then show ?thesis unfolding step ih b using False by simp
    qed
  qed
qed

lemma row_of_pixel:
  "0 < sw \<Longrightarrow> (y * sw \<le> p \<and> p < y * sw + sw) = (p div sw = y)" for sw y p :: nat
proof
  assume sw: "0 < sw" and "y * sw \<le> p \<and> p < y * sw + sw"
  then show "p div sw = y"
    by (metis add.commute div_nat_eqI mult.commute mult_Suc)
next
  assume sw: "0 < sw" and e: "p div sw = y"
  have "p div sw * sw \<le> p" by simp
  moreover have "p < p div sw * sw + sw" using sw
    by (metis add.commute dividend_less_div_times mult.commute)
  ultimately show "y * sw \<le> p \<and> p < y * sw + sw" using e by simp
qed

lemma bandRow_row:
  assumes "0 < sw" "j < length d"
  shows "bandRow sw y 0 d ! j =
     (if j div 4 div sw = y \<and> j mod 4 < 3 then min 255 (d ! j + 10) else d ! j)"
  using assms(2) by (simp add: bandRow_nth row_of_pixel [OF assms(1), symmetric])

lemma bandLoop_step_skip:
  "y < yEnd \<Longrightarrow> y < 0 \<or> int sh \<le> y \<Longrightarrow> bandLoop sw sh y yEnd d = bandLoop sw sh (y + 1) yEnd d"
  by (subst bandLoop.simps) simp

lemma bandLoop_step_row:
  "y < yEnd \<Longrightarrow> \<not> (y < 0 \<or> int sh \<le> y) \<Longrightarrow>
   bandLoop sw sh y yEnd d = bandLoop sw sh (y + 1) yEnd (bandRow sw (nat y) 0 d)"
  by (subst bandLoop.simps) simp

lemma bandLoop_stop: "\<not> y < yEnd \<Longrightarrow> bandLoop sw sh y yEnd d = d"
  by (subst bandLoop.simps) simp

lemma length_bandLoop [simp]: "length (bandLoop sw sh y yEnd d) = length d"
proof (induction sw sh y yEnd d rule: bandLoop.induct)
  case (1 sw sh y yEnd d)
  show ?case
  proof (cases "y < yEnd")
    case False
    then show ?thesis by (simp add: bandLoop_stop)
  next
    case True
    show ?thesis
    proof (cases "y < 0 \<or> int sh \<le> y")
      case skip: True
      then show ?thesis using "1.IH"(1) [OF True skip] True by (simp add: bandLoop_step_skip)
    next
      case row: False
      then show ?thesis using "1.IH"(2) [OF True row] True by (simp add: bandLoop_step_row)
    qed
  qed
qed

lemma bandLoop_nth:
  "0 < sw \<Longrightarrow> j < length d \<Longrightarrow>
   bandLoop sw sh y yEnd d ! j =
     (if y \<le> int (j div 4 div sw) \<and> int (j div 4 div sw) < yEnd \<and> j div 4 div sw < sh \<and> j mod 4 < 3
      then min 255 (d ! j + 10) else d ! j)"
proof (induction sw sh y yEnd d arbitrary: j rule: bandLoop.induct)
  case (1 sw sh y yEnd d)
  let ?r = "j div 4 div sw"
  show ?case
  proof (cases "y < yEnd")
    case False
    then show ?thesis by (simp add: bandLoop_stop)
  next
    case True
    show ?thesis
    proof (cases "y < 0 \<or> int sh \<le> y")
      case skip: True
      have ih: "bandLoop sw sh (y + 1) yEnd d ! j =
          (if y + 1 \<le> int ?r \<and> int ?r < yEnd \<and> ?r < sh \<and> j mod 4 < 3
           then min 255 (d ! j + 10) else d ! j)"
        using "1.IH"(1) [OF True skip "1.prems"] .
      have "(y + 1 \<le> int ?r \<and> ?r < sh) = (y \<le> int ?r \<and> ?r < sh)" using skip by linarith
      then show ?thesis
        unfolding bandLoop_step_skip [OF True skip] ih by auto
    next
      case row: False
      let ?d = "bandRow sw (nat y) 0 d"
      have j: "j < length ?d" using "1.prems"(2) by simp
      have ih: "bandLoop sw sh (y + 1) yEnd ?d ! j =
          (if y + 1 \<le> int ?r \<and> int ?r < yEnd \<and> ?r < sh \<and> j mod 4 < 3
           then min 255 (?d ! j + 10) else ?d ! j)"
        using "1.IH"(2) [OF True row "1.prems"(1) j] .
      have b: "?d ! j = (if ?r = nat y \<and> j mod 4 < 3 then min 255 (d ! j + 10) else d ! j)"
        using "1.prems" by (rule bandRow_row)
      show ?thesis
      proof (cases "?r = nat y")
        case same: True
        then have "int ?r = y" using row by simp
        moreover have "nat y < sh" using row by linarith
        ultimately show ?thesis
          unfolding bandLoop_step_row [OF True row] ih b using same True row by simp
      next
        case other: False
        then have "(y + 1 \<le> int ?r) = (y \<le> int ?r)" using row by linarith
        then show ?thesis
          unfolding bandLoop_step_row [OF True row] ih b using other by simp
      qed
    qed
  qed
qed

lemma length_band [simp]: "length (band sw sh t d) = length d"
  by (simp add: band_def)

lemma band_nth:
  "0 < sw \<Longrightarrow> j < length d \<Longrightarrow>
   band sw sh t d ! j =
     (if inBand (bandY t sh) (j div 4 div sw) \<and> j div 4 div sw < sh \<and> j mod 4 < 3
      then min 255 (d ! j + 10) else d ! j)"
  by (simp add: band_def bandLoop_nth inBand_def)

lemma band_pixel:
  assumes "x < sw" "y < sh" "ch < 4" "length d = sw * sh * 4"
  shows "band sw sh t d ! ((y * sw + x) * 4 + ch) =
           (if inBand (bandY t sh) y \<and> ch < 3
            then min 255 (d ! ((y * sw + x) * 4 + ch) + 10)
            else d ! ((y * sw + x) * 4 + ch))"
proof -
  let ?j = "(y * sw + x) * 4 + ch"
  have sw: "0 < sw" using assms(1) by simp
  have "y * sw + x < y * sw + sw" using assms(1) by simp
  also have "\<dots> = Suc y * sw" by simp
  also have "\<dots> \<le> sh * sw" using assms(2) by (intro mult_le_mono1) simp
  finally have p: "y * sw + x < sw * sh" by (simp add: mult.commute)
  have j: "?j < length d" using p assms(3,4) by simp
  have g: "(k * 4 + ch) div 4 = k \<and> (k * 4 + ch) mod 4 = ch" for k :: nat
    using assms(3) by simp
  have d4: "?j div 4 = y * sw + x" using g [of "y * sw + x"] by blast
  have m4: "?j mod 4 = ch" using g [of "y * sw + x"] by blast
  have r: "(y * sw + x) div sw = y" using assms(1) by simp
  show ?thesis
    using assms(2) unfolding band_nth [OF sw j] d4 m4 r by simp
qed

lemma bandY_nonneg:
  assumes "0 \<le> t" "0 < sh"
  shows "bandY t sh = \<lfloor>t * 20\<rfloor> mod int sh"
proof -
  let ?a = "t * 20"
  have q: "0 \<le> ?a / real sh" using assms by simp
  have fl: "\<lfloor>?a / real sh\<rfloor> = \<lfloor>?a\<rfloor> div int sh"
    using floor_divide_real_eq_div [of "int sh" ?a] by simp
  have "bandY t sh = \<lfloor>?a - real_of_int (int sh * \<lfloor>?a / real sh\<rfloor>)\<rfloor>"
    using q by (simp add: bandY_def js_rem_def)
  also have "\<dots> = \<lfloor>?a\<rfloor> - int sh * \<lfloor>?a / real sh\<rfloor>"
    by (rule floor_diff_of_int)
  also have "\<dots> = \<lfloor>?a\<rfloor> mod int sh"
    unfolding fl by (simp add: minus_mult_div_eq_mod)
  finally show ?thesis .
qed

lemma set_bandRows:
  "set (bandRows sh b) = {nat (b - 3)..<nat (min (int sh) (b + 3))}"
  by (auto simp add: bandRows_def inBand_def)

lemma length_bandRows:
  "length (bandRows sh b) = nat (min (int sh) (b + 3)) - nat (b - 3)"
proof -
  have "distinct (bandRows sh b)" by (simp add: bandRows_def)
  then have "length (bandRows sh b) = card (set (bandRows sh b))"
    by (simp add: distinct_card)
  then show ?thesis by (simp add: set_bandRows)
qed


lemma staticFrame_nth:
  "j < 150528 \<Longrightarrow> staticFrame ! j = (if j mod 4 = 3 then 255 else 135)"
proof -
  have u: "ToUint8Clamp 135 = 135" by (simp add: ToUint8Clamp_def)
  show "j < 150528 \<Longrightarrow> staticFrame ! j = (if j mod 4 = 3 then 255 else 135)"
    by (simp add: staticFrame_def baseStatic_nth halfRandom_def staticBase_half u)
qed

lemma length_staticFrame [simp]: "length staticFrame = 150528"
  by (simp add: staticFrame_def)

lemma bandY_demo: "bandY (1 / 2) 168 = 10" "bandY (1 / 20) 168 = 1"
  by (simp_all add: bandY_nonneg)

section \<open>Speckles, temporal blend and the rendered frame\<close>

lemma ToUint8Clamp_le: "ToUint8Clamp x \<le> 255"
proof -
  define c where "c = min (max x 0) 255"
  define f where "f = \<lfloor>c\<rfloor>"
  have c: "0 \<le> c" "c \<le> 255" by (simp_all add: c_def)
  have fl: "of_int f \<le> c" unfolding f_def by simp
  have f0: "0 \<le> f" unfolding f_def using c(1) by simp
  have f1: "f \<le> 255" using fl c(2) by linarith
  have g: "f + 1 \<le> 255" if "\<not> c < of_int f + 1 / 2"
  proof -
    have "of_int f < (255::real)" using that c(2) by linarith
    then have "f < 255" by linarith
    then show ?thesis by simp
  qed
  have "ToUint8Clamp x =
      (if c < of_int f + 1 / 2 then nat f
       else if c > of_int f + 1 / 2 then nat (f + 1)
       else if even f then nat f else nat (f + 1))"
    by (simp add: ToUint8Clamp_def c_def f_def Let_def)
  then show ?thesis using f0 f1 g by (auto simp: nat_le_iff)
qed

lemma bytes_nth: "bytes d = (\<forall>j<length d. d ! j \<le> 255)"
  by (simp add: bytes_def list_all_length)

lemma bytes_update: "bytes d \<Longrightarrow> v \<le> 255 \<Longrightarrow> bytes (d[i := v])"
  unfolding bytes_def list_all_iff using set_update_subset_insert [of d i v] by fastforce

lemma bytes_baseStatic: "bytes (fst (baseStatic rnd c 0 d))"
  by (simp add: bytes_nth baseStatic_nth ToUint8Clamp_le)

lemma bytes_bandRow: "bytes d \<Longrightarrow> bytes (bandRow sw y x d)"
  by (simp add: bytes_nth bandRow_nth)

lemma bytes_bandLoop: "bytes d \<Longrightarrow> bytes (bandLoop sw sh y yEnd d)"
proof (induction sw sh y yEnd d rule: bandLoop.induct)
  case (1 sw sh y yEnd d)
  show ?case
  proof (cases "y < yEnd")
    case False
    then show ?thesis using "1.prems" by (simp add: bandLoop_stop)
  next
    case True
    show ?thesis
    proof (cases "y < 0 \<or> int sh \<le> y")
      case skip: True
      then show ?thesis
        using "1.IH"(1) [OF True skip "1.prems"] True by (simp add: bandLoop_step_skip)
    next
      case row: False
      then show ?thesis
        using "1.IH"(2) [OF True row bytes_bandRow [OF "1.prems"]] True
        by (simp add: bandLoop_step_row)
    qed
  qed
qed

lemma put_props [simp]: "length (put d idx v) = length d"
  by (simp add: put_def)

lemma bytes_put: "bytes d \<Longrightarrow> v \<le> 255 \<Longrightarrow> bytes (put d idx v)"
  by (simp add: put_def bytes_update)

lemma speckleLoop_props:
  "length (fst (speckleLoop rnd c sw sh n d)) = length d \<and>
   (bytes d \<longrightarrow> bytes (fst (speckleLoop rnd c sw sh n d)))"
  by (induction n arbitrary: c d) (simp_all add: Let_def bytes_put)

lemma rawFrame_props:
  "length (fst (rawFrame rnd c e t)) = length (data e) \<and> bytes (fst (rawFrame rnd c e t))"
proof -
  obtain d1 c1 where b: "baseStatic rnd c 0 (data e) = (d1, c1)" by (cases "baseStatic rnd c 0 (data e)")
  have l1: "length d1 = length (data e)" using length_baseStatic [of rnd c 0 "data e"] b by simp
  have b1: "bytes d1" using bytes_baseStatic [of rnd c "data e"] b by simp
  have b2: "bytes (band (smallW e) (smallH e) t d1)" using b1 by (simp add: band_def bytes_bandLoop)
  show ?thesis
    using speckleLoop_props [of rnd c1 "smallW e" "smallH e" "speckleCount (smallW e) (smallH e)"
        "band (smallW e) (smallH e) t d1"] l1 b2
    by (simp add: rawFrame_def b)
qed

lemma blendLoop_step:
  "i < length d \<Longrightarrow>
   blendLoop p i d =
     blendLoop p (i + 4)
       (d[i := mix (d ! i) (p ! i), i + 1 := mix (d ! (i + 1)) (p ! (i + 1)),
          i + 2 := mix (d ! (i + 2)) (p ! (i + 2))])"
  by (subst blendLoop.simps) (simp add: Let_def)

lemma blendLoop_stop: "\<not> i < length d \<Longrightarrow> blendLoop p i d = d"
  by (subst blendLoop.simps) simp

lemma length_blendLoop [simp]: "length (blendLoop p i d) = length d"
proof (induction p i d rule: blendLoop.induct)
  case (1 p i d)
  show ?case
  proof (cases "i < length d")
    case True
    then show ?thesis using 1 [OF True refl refl refl] by (simp add: blendLoop_step)
  next
    case False
    then show ?thesis by (simp add: blendLoop_stop)
  qed
qed

lemma blendLoop_nth:
  "i mod 4 = 0 \<Longrightarrow> j < length d \<Longrightarrow>
   blendLoop p i d ! j = (if j < i \<or> j mod 4 = 3 then d ! j else mix (d ! j) (p ! j))"
proof (induction p i d arbitrary: j rule: blendLoop.induct)
  case (1 p i d)
  show ?case
  proof (cases "i < length d")
    case False
    then show ?thesis using "1.prems" by (simp add: blendLoop_stop)
  next
    case True
    let ?d = "d[i := mix (d ! i) (p ! i), i + 1 := mix (d ! (i + 1)) (p ! (i + 1)),
                i + 2 := mix (d ! (i + 2)) (p ! (i + 2))]"
    have step: "blendLoop p i d = blendLoop p (i + 4) ?d"
      using True by (rule blendLoop_step)
    have m: "(i + 4) mod 4 = 0" using "1.prems"(1) by simp
    have j: "j < length ?d" using "1.prems"(2) by simp
    have ih: "blendLoop p (i + 4) ?d ! j =
        (if j < i + 4 \<or> j mod 4 = 3 then ?d ! j else mix (?d ! j) (p ! j))"
      using "1.IH" [OF True refl refl refl, of j] m j "1.prems" by simp
    have m0: "i mod 4 \<noteq> 3" using "1.prems"(1) by simp
    have m1: "(i + 1) mod 4 \<noteq> 3" using mod4_shift [OF "1.prems"(1), of 1] by simp
    have m2: "(i + 2) mod 4 \<noteq> 3" using mod4_shift [OF "1.prems"(1), of 2] by simp
    have m3: "(i + 3) mod 4 = 3" using mod4_shift [OF "1.prems"(1), of 3] by simp
    consider "j < i" | "j = i" | "j = i + 1" | "j = i + 2" | "j = i + 3" | "i + 4 \<le> j"
      by linarith
    then show ?thesis
    proof cases
      case 1
      then show ?thesis unfolding step ih using "1.prems" by simp
    next
      case 2
      then show ?thesis unfolding step ih using m0 "1.prems" by simp
    next
      case 3
      then show ?thesis unfolding step ih using m1 "1.prems" by simp
    next
      case 4
      then show ?thesis unfolding step ih using m2 "1.prems" by simp
    next
      case 5
      then show ?thesis unfolding step ih using m3 "1.prems" by simp
    next
      case 6
      then show ?thesis unfolding step ih by simp
    qed
  qed
qed

lemma mix_near:
  assumes "a \<le> 255" "b \<le> 255"
  shows "\<bar>real (mix a b) - (real a * (1 - 0.85) + real b * 0.85)\<bar> \<le> 1 / 2"
proof -
  let ?x = "real a * (1 - 0.85) + real b * 0.85"
  have "0 \<le> ?x" by simp
  moreover have "?x \<le> 255" using assms by simp
  ultimately show ?thesis
    using ToUint8Clamp_near [of ?x] by (simp add: mix_def blend_def)
qed

lemma drawNoise_rendered:
  "frameInterval \<le> now - last_t e \<Longrightarrow>
   rendered e now s =
     e\<lparr>data := temporalBlend (prev e) (rawOf e now s), last_t := now,
       t_sec := t_sec e + (now - last_t e) / 1000,
       prev := Some (temporalBlend (prev e) (rawOf e now s))\<rparr>"
  by (simp add: rendered_def rawOf_def drawNoise_def Let_def split: prod.split)

lemma drawNoise_skipped:
  "now - last_t e < frameInterval \<Longrightarrow> rendered e now s = e"
  by (simp add: rendered_def drawNoise_def)


lemma blendedEnv_simps [simp]:
  "last_t blendedEnv = 0" "length (data blendedEnv) = 150528" "prev blendedEnv = Some staticFrame"
  "last_t (newNoiseEnv w h) = 0" "prev (newNoiseEnv w h) = None"
  by (simp_all add: blendedEnv_def newNoiseEnv_def Let_def)

section \<open>Selecting an unknown camera\<close>

text \<open>For an identifier that is neither in the registry nor a name of
  \<^verbatim>\<open>Object.prototype\<close>, \<open>loadScene\<close> only writes the error to the console.\<close>

lemma loadScene_missing_noop:
  "cameras s ident = None \<Longrightarrow> ident \<notin> set protoNames \<Longrightarrow>
     loadScene ident s = s\<lparr>console := console s @ [''Camera '' @ ident @ '' not found'']\<rparr>"
  by (simp add: loadScene_unknown)

text \<open>
  C1. The claim is that \<open>loadScene\<close> changes nothing but the console for every identifier
  that is not in the registry. The guard of the code does this for the identifiers that
  are not names of \<^verbatim>\<open>Object.prototype\<close> either (lemma \<open>loadScene_missing_noop\<close>). For
  an inherited name such as \<^verbatim>\<open>constructor\<close> the guard does not fire: with the FLICKER
  camera \<^verbatim>\<open>cam-lab\<close> displayed, \<open>loadScene\<close> of \<^verbatim>\<open>constructor\<close> replaces the
  active identifier, the viewport and the pan node, and leaves the glitch timer of
  \<^verbatim>\<open>cam-lab\<close> pending.
\<close>

theorem loadScene_inherited_name_changes_state:
  "cameras (loadScene ''cam-lab'' demoState) ''constructor'' = None \<and>
   activeId (loadScene ''cam-lab'' demoState) = Some ''cam-lab'' \<and>
   view (loadScene ''cam-lab'' demoState) = [Media 0] \<and>
   panNode (loadScene ''cam-lab'' demoState) = Some 0 \<and>
   activeId (loadScene ''constructor'' (loadScene ''cam-lab'' demoState)) = Some ''constructor'' \<and>
   view (loadScene ''constructor'' (loadScene ''cam-lab'' demoState)) = [Media 1] \<and>
   panNode (loadScene ''constructor'' (loadScene ''cam-lab'' demoState)) = Some 1 \<and>
   glitchTimer (loadScene ''constructor'' (loadScene ''cam-lab'' demoState)) = Some 1 \<and>
   timers (loadScene ''constructor'' (loadScene ''cam-lab'' demoState)) =
     timers (loadScene ''cam-lab'' demoState)"
proof -
  have none: "cameras (loadScene ''cam-lab'' demoState) ''constructor'' = None"
    by (simp add: loadScene_fields(1) [of demoState _ camLab])
       (simp add: demoState_def initial_def demoCameras_def)
  have a: "activeId (loadScene ''cam-lab'' demoState) = Some ''cam-lab''"
    by (simp add: loadScene_fields(2) [of demoState _ camLab])
  have v: "view (loadScene ''cam-lab'' demoState) = [Media 0]"
    by (simp add: loadScene_fields(6) [of demoState _ camLab])
  have pn: "panNode (loadScene ''cam-lab'' demoState) = Some 0"
    by (simp add: loadScene_fields(5) [of demoState _ camLab])
  have n: "nextNode (loadScene ''cam-lab'' demoState) = 1"
    by (simp add: loadScene_known [of demoState _ camLab] shown_def resetPan_def updateUi_def
          mountScene_def mountMedia_def statusEffects_def triggerGlitch_def schedule_def
          Math_random_def stopGlitch_def Let_def split: option.split)
  have g: "glitchTimer (loadScene ''cam-lab'' demoState) = Some 1"
    by (simp add: loadScene_pending(2) [of demoState _ camLab] glitchy_def)
  show ?thesis
    using none a v pn g n by (simp add: loadScene_unknown [OF none] protoNames_def)
qed

section \<open>Pending timers and animation frames\<close>

text \<open>
  C2. After any sequence of the operations \<open>loadScene\<close>, \<open>triggerGlitch\<close>,
  \<open>stopGlitch\<close>, \<open>startLostSignalEffect\<close>, \<open>stopLostSignalEffect\<close>, the pan toggle
  and the firing of pending callbacks, at most one glitch timeout and at most one animation
  frame are pending. Selecting a camera then leaves pending only callbacks made by that
  selection: their handles are not below the browser's next handle before the call, a
  timer carries the bounds of the selected camera, and a frame starts with no previous
  frame.
\<close>

theorem pending_callbacks_at_most_one:
  assumes ok: "pendingOk s"
  shows "length (timers (run evs s)) \<le> 1 \<and> length (frames (run evs s)) \<le> 1 \<and>
         (\<forall>ident cam. cameras s ident = Some cam \<longrightarrow>
            list_all (\<lambda>x. nextTimer (run evs s) \<le> tid x \<and>
                           tmin x = glitchMinMs cam \<and> tmax x = glitchMaxMs cam)
              (timers (loadScene ident (run evs s))) \<and>
            list_all (\<lambda>x. nextFrame (run evs s) \<le> fid x \<and> prev (fenv x) = None)
              (frames (loadScene ident (run evs s))))"
proof -
  have r: "pendingOk (run evs s)" using ok by (rule pendingOk_run)
  have one: "length (timers (run evs s)) \<le> 1 \<and> length (frames (run evs s)) \<le> 1"
    using r by (rule pendingOk_at_most_one)
  have fresh: "list_all (\<lambda>x. nextTimer (run evs s) \<le> tid x \<and>
                           tmin x = glitchMinMs cam \<and> tmax x = glitchMaxMs cam)
              (timers (loadScene ident (run evs s))) \<and>
            list_all (\<lambda>x. nextFrame (run evs s) \<le> fid x \<and> prev (fenv x) = None)
              (frames (loadScene ident (run evs s)))"
    if c: "cameras s ident = Some cam" for ident cam
  proof -
    have c': "cameras (run evs s) ident = Some cam" using c by simp
    show ?thesis
      by (simp add: loadScene_pending(1) [OF r c'] loadScene_pending(3) [OF r c'] newNoiseEnv_def Let_def)
  qed
  show ?thesis using one fresh by blast
qed

theorem pending_callbacks_at_most_one_witness:
  "pendingOk demoState \<and>
   cameras demoState ''cam-dock'' = Some camDock \<and>
   length (timers (run demoEvents demoState)) \<le> 1 \<and>
   length (frames (run demoEvents demoState)) \<le> 1 \<and>
   list_all (\<lambda>x. nextTimer (run demoEvents demoState) \<le> tid x \<and> tmin x = Fin 400 \<and> tmax x = Fin 1200)
     (timers (loadScene ''cam-dock'' (run demoEvents demoState))) \<and>
   list_all (\<lambda>x. nextFrame (run demoEvents demoState) \<le> fid x \<and> prev (fenv x) = None)
     (frames (loadScene ''cam-dock'' (run demoEvents demoState)))"
proof -
  note t = pending_callbacks_at_most_one [OF pendingOk_demoState, of demoEvents]
  have c: "cameras demoState ''cam-dock'' = Some camDock" by simp
  from t c have "list_all (\<lambda>x. nextTimer (run demoEvents demoState) \<le> tid x \<and>
         tmin x = glitchMinMs camDock \<and> tmax x = glitchMaxMs camDock)
       (timers (loadScene ''cam-dock'' (run demoEvents demoState))) \<and>
     list_all (\<lambda>x. nextFrame (run demoEvents demoState) \<le> fid x \<and> prev (fenv x) = None)
       (frames (loadScene ''cam-dock'' (run demoEvents demoState)))"
    by blast
  then show ?thesis using t by simp
qed

section \<open>Delays of the glitch scheduler\<close>




section \<open>Numeric fields of a loaded row\<close>




section \<open>Effects started by the status\<close>

text \<open>
  C5. Selecting a camera of the registry leaves a glitch timer scheduled exactly when its
  status is \<open>FLICKER\<close>, \<open>INTERFERENCE\<close> or \<open>LOST SIGNAL\<close> (the spelling of the code for
  the status the specification writes \<open>LOST_SIGNAL\<close>); for \<open>ONLINE\<close> and \<open>OFFLINE\<close> no
  timer is pending, and for \<open>OFFLINE\<close> no animation frame is pending either.
\<close>

theorem glitch_started_iff_status:
  assumes ok: "pendingOk s" and cam: "cameras s ident = Some cam"
  shows "(glitchTimer (loadScene ident s) \<noteq> None \<longleftrightarrow>
            status cam = ''FLICKER'' \<or> status cam = ''INTERFERENCE'' \<or> status cam = ''LOST SIGNAL'') \<and>
         (timers (loadScene ident s) \<noteq> [] \<longleftrightarrow>
            status cam = ''FLICKER'' \<or> status cam = ''INTERFERENCE'' \<or> status cam = ''LOST SIGNAL'') \<and>
         (status cam = ''ONLINE'' \<or> status cam = ''OFFLINE'' \<longrightarrow>
            timers (loadScene ident s) = [] \<and> glitchTimer (loadScene ident s) = None) \<and>
         (status cam = ''OFFLINE'' \<longrightarrow>
            frames (loadScene ident s) = [] \<and> lostSignalAnimationId (loadScene ident s) = None)"
  by (auto simp add: loadScene_pending [OF ok cam] glitchy_def)

theorem glitch_started_iff_status_witness:
  "pendingOk (loadScene ''cam-dock'' demoState) \<and>
   cameras (loadScene ''cam-dock'' demoState) ''cam-vent'' = Some camVent \<and>
   status camVent = ''OFFLINE'' \<and>
   timers (loadScene ''cam-dock'' demoState) \<noteq> [] \<and>
   frames (loadScene ''cam-dock'' demoState) \<noteq> [] \<and>
   timers (loadScene ''cam-vent'' (loadScene ''cam-dock'' demoState)) = [] \<and>
   glitchTimer (loadScene ''cam-vent'' (loadScene ''cam-dock'' demoState)) = None \<and>
   frames (loadScene ''cam-vent'' (loadScene ''cam-dock'' demoState)) = [] \<and>
   lostSignalAnimationId (loadScene ''cam-vent'' (loadScene ''cam-dock'' demoState)) = None"
proof -
  have ok: "pendingOk (loadScene ''cam-dock'' demoState)"
    by (rule pendingOk_loadScene) simp
  have vent: "cameras (loadScene ''cam-dock'' demoState) ''cam-vent'' = Some camVent"
    by (simp add: loadScene_fields(1) [of demoState _ camDock])
  have before: "timers (loadScene ''cam-dock'' demoState) \<noteq> [] \<and>
      frames (loadScene ''cam-dock'' demoState) \<noteq> []"
    by (simp add: loadScene_pending [of demoState _ camDock] glitchy_def)
  show ?thesis
    using glitch_started_iff_status [OF ok vent] ok vent before by simp
qed

section \<open>Temporal blend\<close>

text \<open>
  C6 (amended). When the noise callback renders a frame, the buffer it had before the blend
  (\<open>rawOf\<close>) is kept as it is if there is no previous frame. If there is one, each of the
  three colour bytes of every pixel becomes \<open>current * (1 - 0.85) + previous * 0.85\<close>
  rounded by the typed array to the nearest integer (at most one half away from that
  value), \<open>previous\<close> being the byte of the frame rendered just before; the alpha byte is
  not blended. The rendered frame becomes the previous frame of the next one. A generator
  that is started again begins with a new environment that has no previous frame, so its
  first frame is not blended.
\<close>

theorem temporal_blend_frames:
  assumes now: "frameInterval \<le> now - last_t e" and j: "j < length (data e)"
  shows "length (rawOf e now s) = length (data e) \<and> rawOf e now s ! j \<le> 255 \<and>
         (prev e = None \<longrightarrow> data (rendered e now s) = rawOf e now s) \<and>
         (\<forall>p. prev e = Some p \<and> length p = length (data e) \<longrightarrow>
              data (rendered e now s) ! j =
                (if j mod 4 = 3 then rawOf e now s ! j
                 else ToUint8Clamp (real (rawOf e now s ! j) * (1 - 0.85) + real (p ! j) * 0.85)) \<and>
              (p ! j \<le> 255 \<longrightarrow>
                 \<bar>real (ToUint8Clamp (real (rawOf e now s ! j) * (1 - 0.85) + real (p ! j) * 0.85))
                   - (real (rawOf e now s ! j) * (1 - 0.85) + real (p ! j) * 0.85)\<bar> \<le> 1 / 2)) \<and>
         prev (rendered e now s) = Some (data (rendered e now s)) \<and>
         prev (newNoiseEnv w h) = None \<and>
         (pendingOk s \<longrightarrow> map fenv (frames (startLostSignalEffect w h s)) = [newNoiseEnv w h])"
proof -
  have len: "length (rawOf e now s) = length (data e)"
    by (simp add: rawOf_def rawFrame_props)
  have "bytes (rawOf e now s)" by (simp add: rawOf_def rawFrame_props)
  then have byte: "rawOf e now s ! j \<le> 255" using j len by (simp add: bytes_nth)
  have first: "prev e = None \<longrightarrow> data (rendered e now s) = rawOf e now s"
    by (simp add: drawNoise_rendered [OF now] temporalBlend_def)
  have later: "data (rendered e now s) ! j =
        (if j mod 4 = 3 then rawOf e now s ! j
         else ToUint8Clamp (real (rawOf e now s ! j) * (1 - 0.85) + real (p ! j) * 0.85)) \<and>
      (p ! j \<le> 255 \<longrightarrow>
         \<bar>real (ToUint8Clamp (real (rawOf e now s ! j) * (1 - 0.85) + real (p ! j) * 0.85))
           - (real (rawOf e now s ! j) * (1 - 0.85) + real (p ! j) * 0.85)\<bar> \<le> 1 / 2)"
    if p: "prev e = Some p" "length p = length (data e)" for p
  proof -
    have "data (rendered e now s) = blendLoop p 0 (rawOf e now s)"
      using p len by (simp add: drawNoise_rendered [OF now] temporalBlend_def)
    then have v: "data (rendered e now s) ! j =
        (if j mod 4 = 3 then rawOf e now s ! j else mix (rawOf e now s ! j) (p ! j))"
      using j len by (simp add: blendLoop_nth)
    have n: "p ! j \<le> 255 \<longrightarrow>
         \<bar>real (mix (rawOf e now s ! j) (p ! j))
           - (real (rawOf e now s ! j) * (1 - 0.85) + real (p ! j) * 0.85)\<bar> \<le> 1 / 2"
      using mix_near [OF byte] by blast
    show ?thesis using v n by (simp add: mix_def blend_def)
  qed
  have keep: "prev (rendered e now s) = Some (data (rendered e now s))"
    by (simp add: drawNoise_rendered [OF now])
  have restart: "pendingOk s \<longrightarrow> map fenv (frames (startLostSignalEffect w h s)) = [newNoiseEnv w h]"
    by (simp add: startLost_frames)
  show ?thesis using len byte first later keep restart by simp
qed

theorem temporal_blend_frames_witness:
  "frameInterval \<le> 50 - last_t blendedEnv \<and> 0 < length (data blendedEnv) \<and>
   prev blendedEnv = Some staticFrame \<and> length staticFrame = length (data blendedEnv) \<and>
   staticFrame ! 0 = 135 \<and>
   data (rendered blendedEnv 50 demoState) ! 0 =
     ToUint8Clamp (real (rawOf blendedEnv 50 demoState ! 0) * (1 - 0.85) + 135 * 0.85) \<and>
   prev (rendered blendedEnv 50 demoState) = Some (data (rendered blendedEnv 50 demoState)) \<and>
   prev (newNoiseEnv 800 600) = None \<and>
   data (rendered (newNoiseEnv 800 600) 50 demoState) = rawOf (newNoiseEnv 800 600) 50 demoState \<and>
   pendingOk demoState \<and>
   map fenv (frames (startLostSignalEffect 800 600 demoState)) = [newNoiseEnv 800 600]"
proof -
  have f: "frameInterval \<le> 50" by (simp add: frameInterval_def)
  have a: "frameInterval \<le> 50 - last_t blendedEnv" using f by simp
  have b: "frameInterval \<le> 50 - last_t (newNoiseEnv 800 600)" using f by simp
  have j: "0 < length (data blendedEnv)" by simp
  have k: "0 < length (data (newNoiseEnv 800 600))" by simp
  note A = temporal_blend_frames [OF a j, of demoState 800 600]
  note B = temporal_blend_frames [OF b k, of demoState 800 600]
  have s0: "staticFrame ! 0 = 135" by (simp add: staticFrame_nth)
  from A have "data (rendered blendedEnv 50 demoState) ! 0 =
     ToUint8Clamp (real (rawOf blendedEnv 50 demoState ! 0) * (1 - 0.85) + real (staticFrame ! 0) * 0.85)"
    by simp
  then show ?thesis using A B a s0 by simp
qed

text \<open>The byte written is not the blended value itself: the blend of 100 over a previous 101
  is 100.85, and the buffer holds 101.\<close>

theorem temporal_blend_rounds_counterexample:
  "temporalBlend (Some [101, 101, 101, 255]) [100, 100, 100, 255] = [101, 101, 101, 255] \<and>
   real (101::nat) \<noteq> real (100::nat) * (1 - 0.85) + real (101::nat) * 0.85"
proof -
  have m: "mix 100 101 = 101" by (simp add: mix_def blend_def ToUint8Clamp_def)
  show ?thesis
    by (simp add: temporalBlend_def blendLoop_step blendLoop_stop m)
qed

section \<open>Base static\<close>

text \<open>
  C7 (amended). After the first pass of a rendered frame (\<open>baseStatic\<close>, which \<open>rawFrame\<close>
  runs before the band, the speckles and the blend), every pixel \<open>k\<close> of the buffer
  holds in its three colour bytes the same value: the grey level
  \<open>base = 100 + random * 70\<close>, computed in doubles from one result of
  \<^verbatim>\<open>Math.random()\<close>, rounded to the nearest integer by the typed array. When the results
  of \<^verbatim>\<open>Math.random()\<close> lie in the half-open unit interval, \<open>base\<close> lies in the closed
  range from 100 to 170 and the byte is between 100 and 170 inclusive, at most one half
  away from \<open>base\<close>. The alpha byte is 255.
\<close>

theorem base_static_pixels:
  assumes r: "\<forall>n. 0 \<le> rnd n \<and> rnd n < 1" and k: "4 * k + 3 < length d"
  shows "fst (baseStatic rnd c 0 d) ! (4 * k) = ToUint8Clamp (staticBase (rnd (c + k))) \<and>
         fst (baseStatic rnd c 0 d) ! (4 * k + 1) = ToUint8Clamp (staticBase (rnd (c + k))) \<and>
         fst (baseStatic rnd c 0 d) ! (4 * k + 2) = ToUint8Clamp (staticBase (rnd (c + k))) \<and>
         fst (baseStatic rnd c 0 d) ! (4 * k + 3) = 255 \<and>
         staticBase (rnd (c + k)) = roundDouble (100 + roundDouble (rnd (c + k) * 70)) \<and>
         100 \<le> staticBase (rnd (c + k)) \<and> staticBase (rnd (c + k)) \<le> 170 \<and>
         100 \<le> ToUint8Clamp (staticBase (rnd (c + k))) \<and>
         ToUint8Clamp (staticBase (rnd (c + k))) \<le> 170 \<and>
         \<bar>real (ToUint8Clamp (staticBase (rnd (c + k)))) - staticBase (rnd (c + k))\<bar> \<le> 1 / 2"
proof -
  let ?x = "staticBase (rnd (c + k))"
  have rk: "0 \<le> rnd (c + k)" "rnd (c + k) < 1" using r by simp_all
  have x: "100 \<le> ?x" "?x \<le> 170" using staticBase_bounds [OF rk] by simp_all
  have b: "100 \<le> ToUint8Clamp ?x \<and> ToUint8Clamp ?x \<le> 170"
    using ToUint8Clamp_between [of 100 ?x 170] x by simp
  have n: "\<bar>real (ToUint8Clamp ?x) - ?x\<bar> \<le> 1 / 2"
    using ToUint8Clamp_near [of ?x] x by simp
  have d0: "(4 * k) div 4 = k" "(4 * k + 1) div 4 = k" "(4 * k + 2) div 4 = k" by simp_all
  have m: "(4 * k) mod 4 \<noteq> 3" "(4 * k + 1) mod 4 \<noteq> 3" "(4 * k + 2) mod 4 \<noteq> 3"
    "(4 * k + 3) mod 4 = 3"
    by presburger+
  have p0: "fst (baseStatic rnd c 0 d) ! (4 * k) = ToUint8Clamp ?x"
    using k m d0 by (simp add: baseStatic_nth)
  have p1: "fst (baseStatic rnd c 0 d) ! (4 * k + 1) = ToUint8Clamp ?x"
    using k m d0 by (simp add: baseStatic_nth)
  have p2: "fst (baseStatic rnd c 0 d) ! (4 * k + 2) = ToUint8Clamp ?x"
    using k m d0 by (simp add: baseStatic_nth)
  have p3: "fst (baseStatic rnd c 0 d) ! (4 * k + 3) = 255"
    using k m d0 by (simp add: baseStatic_nth)
  have e: "?x = roundDouble (100 + roundDouble (rnd (c + k) * 70))"
    by (simp add: staticBase_def)
  show ?thesis
    by (intro conjI p0 p1 p2 p3 e x n b [THEN conjunct1] b [THEN conjunct2])
qed

theorem base_static_pixels_witness:
  "(\<forall>n::nat. (0::real) \<le> 1 / 2 \<and> (1 / 2 :: real) < 1) \<and>
   4 * 0 + 3 < length (data (newNoiseEnv 800 600)) \<and>
   staticBase (1 / 2) = 135 \<and>
   fst (baseStatic (\<lambda>n. 1 / 2) 0 0 (data (newNoiseEnv 800 600))) ! 0 = 135 \<and>
   fst (baseStatic (\<lambda>n. 1 / 2) 0 0 (data (newNoiseEnv 800 600))) ! 1 = 135 \<and>
   fst (baseStatic (\<lambda>n. 1 / 2) 0 0 (data (newNoiseEnv 800 600))) ! 2 = 135 \<and>
   fst (baseStatic (\<lambda>n. 1 / 2) 0 0 (data (newNoiseEnv 800 600))) ! 3 = 255"
proof -
  have u: "ToUint8Clamp 135 = 135" by (simp add: ToUint8Clamp_def)
  show ?thesis
    using base_static_pixels [of "\<lambda>n. 1 / 2" 0 "data (newNoiseEnv 800 600)" 0]
    by (simp add: u numeral_2_eq_2 staticBase_half)
qed

text \<open>The grey level is not confined to the half-open range and the pixel does not hold
  it unrounded. \<^verbatim>\<open>Math.random()\<close> may return the largest double below 1; then the
  product rounds to \<open>70 - 2 ^ - 46\<close>, the sum, a tie between two doubles, rounds to 170,
  and the byte is 170. For the result \<open>96505706300796 / 2 ^ 52\<close> the grey level is the
  double \<open>101.5\<close> and the typed array stores 102.\<close>

theorem base_static_reaches_170_counterexample:
  "0 \<le> maxRandom 0 \<and> maxRandom 0 < 1 \<and> roundDouble (maxRandom 0) = maxRandom 0 \<and>
   staticBase (maxRandom 0) = 170 \<and> \<not> staticBase (maxRandom 0) < 170 \<and>
   fst (baseStatic maxRandom 0 0 (data (newNoiseEnv 800 600))) ! 0 = 170 \<and>
   0 \<le> tieRandom 0 \<and> tieRandom 0 < 1 \<and>
   staticBase (tieRandom 0) = 203 / 2 \<and>
   fst (baseStatic tieRandom 0 0 (data (newNoiseEnv 800 600))) ! 0 = 102"
proof -
  have u: "ToUint8Clamp 170 = 170" "ToUint8Clamp (203 / 2) = 102"
    by (simp_all add: ToUint8Clamp_def)
  have c: "roundDouble (maxRandom 0) = maxRandom 0"
    unfolding maxRandom_def by (rule maxRandom_double)
  have m: "0 \<le> maxRandom 0 \<and> maxRandom 0 < 1" by (simp add: maxRandom_def)
  have t: "0 \<le> tieRandom 0 \<and> tieRandom 0 < 1" by (simp add: tieRandom_def)
  show ?thesis
    using c m t by (simp add: baseStatic_nth staticBase_maxRandom staticBase_tieRandom u)
qed

section \<open>Drifting luminance band\<close>




section \<open>Pan state\<close>

text \<open>
  C9 (amended). Selecting a camera whose pan is enabled sets the pan-paused flag to false and
  the label of the control to PAUSE PAN; one toggle then sets the flag and the label
  RESUME PAN, and every toggle flips the flag. When the status of the camera is not
  \<open>LOST SIGNAL\<close>, the mounted media element is the pan node, its play state is
  \<open>running\<close> after the selection, \<open>paused\<close> after one toggle and \<open>running\<close> after two.
  A \<open>LOST SIGNAL\<close> camera has no pan node, and no play state is set for it.
\<close>

theorem pan_reset_and_toggle:
  assumes cam: "cameras s ident = Some cam" and pan: "panEnabled cam"
  shows "panPaused (loadScene ident s) = False \<and>
         togglePanText (loadScene ident s) = ''PAUSE PAN'' \<and>
         panPaused (togglePan (loadScene ident s)) = True \<and>
         togglePanText (togglePan (loadScene ident s)) = ''RESUME PAN'' \<and>
         (\<forall>s'. panPaused (togglePan s') = (\<not> panPaused s')) \<and>
         (status cam \<noteq> ''LOST SIGNAL'' \<longrightarrow>
            view (loadScene ident s) = [Media (nextNode s)] \<and>
            panNode (loadScene ident s) = Some (nextNode s) \<and>
            className (store (loadScene ident s) (nextNode s)) = ''pan'' \<and>
            playState (loadScene ident s) = Some ''running'' \<and>
            playState (togglePan (loadScene ident s)) = Some ''paused'' \<and>
            playState (togglePan (togglePan (loadScene ident s))) = Some ''running'') \<and>
         (status cam = ''LOST SIGNAL'' \<longrightarrow>
            panNode (loadScene ident s) = None \<and>
            playState (togglePan (loadScene ident s)) = None)"
  using pan
  by (simp add: loadScene_fields [OF cam] togglePan_playState loadScene_playState [OF cam]
        mediaElement_def Let_def)

theorem pan_reset_and_toggle_witness:
  "cameras demoState ''cam-corridor'' = Some camCorridor \<and> panEnabled camCorridor \<and>
   status camCorridor \<noteq> ''LOST SIGNAL'' \<and>
   panPaused (loadScene ''cam-corridor'' demoState) = False \<and>
   togglePanText (loadScene ''cam-corridor'' demoState) = ''PAUSE PAN'' \<and>
   playState (loadScene ''cam-corridor'' demoState) = Some ''running'' \<and>
   panPaused (togglePan (loadScene ''cam-corridor'' demoState)) = True \<and>
   togglePanText (togglePan (loadScene ''cam-corridor'' demoState)) = ''RESUME PAN'' \<and>
   playState (togglePan (loadScene ''cam-corridor'' demoState)) = Some ''paused''"
  using pan_reset_and_toggle [of demoState "''cam-corridor''" camCorridor]
  by simp

text \<open>The claim as it was stated fails for a \<open>LOST SIGNAL\<close> camera whose pan is enabled:
  after one toggle there is no play state \<open>paused\<close>.\<close>

theorem pan_toggle_lost_signal_counterexample:
  "cameras demoState ''cam-dock'' = Some camDock \<and> panEnabled camDock \<and>
   panPaused (togglePan (loadScene ''cam-dock'' demoState)) \<and>
   playState (togglePan (loadScene ''cam-dock'' demoState)) \<noteq> Some ''paused''"
  by (simp add: togglePan_playState loadScene_fields [of demoState "''cam-dock''" camDock])

section \<open>A camera without a media address\<close>

text \<open>
  C10. For a camera whose status is not \<open>LOST SIGNAL\<close> and whose media address is
  empty (so it is not a video), \<open>loadScene\<close> leaves exactly one child in the viewport, an
  \<open>img\<close> element whose source is the placeholder that reads NO CAMERA FEED.
\<close>

theorem empty_url_mounts_placeholder:
  assumes cam: "cameras s ident = Some cam"
    and st: "status cam \<noteq> ''LOST SIGNAL''" and url: "imageUrl cam = []"
  shows "\<not> isVideo cam \<and>
         view (loadScene ident s) = [Media (nextNode s)] \<and>
         tagName (store (loadScene ident s) (nextNode s)) = IMG \<and>
         src (store (loadScene ident s) (nextNode s)) = placeholderNoFeed \<and>
         placeholderNoFeed \<noteq> []"
  using st url
  by (simp add: loadScene_fields [OF cam] mediaElement_def isVideo_def createElement_def
        orStr_def placeholderNoFeed_def Let_def)

theorem empty_url_mounts_placeholder_witness:
  "cameras demoState ''cam-vent'' = Some camVent \<and>
   status camVent \<noteq> ''LOST SIGNAL'' \<and> imageUrl camVent = [] \<and>
   view (loadScene ''cam-vent'' demoState) = [Media 0] \<and>
   tagName (store (loadScene ''cam-vent'' demoState) 0) = IMG \<and>
   src (store (loadScene ''cam-vent'' demoState) 0) =
     ''https://placehold.co/1600x600/031018/1d5b72?text=NO+CAMERA+FEED''"
  using empty_url_mounts_placeholder [of demoState "''cam-vent''" camVent]
  by (simp add: placeholderNoFeed_def)

end
